theory Spec2Isabelle
  imports Main "HOL-Library.Word" "HOL-Library.Sublist" "HOL-Library.Multiset"
begin

section \<open>Two-tier library: \<^verbatim>\<open>video/video.go\<close>\<close>

text \<open>
  \<^verbatim>\<open>Library.Furlough\<close> and \<^verbatim>\<open>Library.Retire\<close> talk to three collaborators: the local
  storage driver, the remote storage driver and the \<^verbatim>\<open>Queries\<close> persistence layer.
  Their packages are not part of the sources at hand, so each of their methods is a
  parameter of the model, with exactly the arguments the call site passes.  A
  collaborator acts on its own part of the world, sees the clock at the time of the call
  and reports the time the call took.  The world is threaded through explicitly: the
  two byte stores, the metadata records, the clock and the list of calls made so far.
  Logging (\<^verbatim>\<open>ll.Warnw\<close>, \<^verbatim>\<open>ll.Infow\<close>) has no effect on that world and is left out.
\<close>

datatype error = DeadlineExceeded | Canceled | ErrOther string

text \<open>\<^verbatim>\<open>time.Duration\<close> and the clock count nanoseconds.\<close>

type_synonym Duration = int

type_synonym Time = int

definition Second :: Duration where
  "Second = 1000000000"

text \<open>
  A context is the background context or a context with a deadline, a point in time.
  \<^verbatim>\<open>context.WithTimeout(parent, d)\<close> is \<^verbatim>\<open>WithDeadline(parent, time.Now().Add(d))\<close>: the
  deadline is fixed when the context is made.
\<close>

datatype Context = Background | WithDeadline Context Time

definition WithTimeout :: "Context \<Rightarrow> Duration \<Rightarrow> Time \<Rightarrow> Context" where
  "WithTimeout parent d now = WithDeadline parent (now + d)"

text \<open>
  Modelled from the spec: the declaration of the \<^verbatim>\<open>Video\<close> struct is not among the
  sources.  The fields are those of the spec's video record; \<^verbatim>\<open>SDHash\<close>, \<^verbatim>\<open>URL\<close>,
  \<^verbatim>\<open>CreatedAt\<close> and \<^verbatim>\<open>LastAccessed\<close> are spelled as \<^verbatim>\<open>video.go\<close> reads them.
\<close>

record Video =
  SDHash :: string
  URL :: string
  localPath :: string
  remoteURL :: string
  Size :: nat
  CreatedAt :: nat
  LastAccessed :: nat

datatype call =
    CallLocalDelete string
  | CallRemoteDelete string
  | CallUpdatePath Context string string
  | CallQueriesDelete Context string


record ('l, 'r, 'd) world =
  local_bytes :: 'l
  remote_bytes :: 'r
  records :: 'd
  clock :: Time
  calls :: "call list"

record ('l, 'r, 'd) Library =
  local_Delete :: "string \<Rightarrow> Time \<Rightarrow> 'l \<Rightarrow> error option \<times> 'l \<times> Duration"
  remote_Delete :: "string \<Rightarrow> Time \<Rightarrow> 'r \<Rightarrow> error option \<times> 'r \<times> Duration"
  queries_UpdatePath ::
    "Context \<Rightarrow> string \<Rightarrow> string \<Rightarrow> Time \<Rightarrow> 'd \<Rightarrow> error option \<times> 'd \<times> Duration"
  queries_Delete :: "Context \<Rightarrow> string \<Rightarrow> Time \<Rightarrow> 'd \<Rightarrow> error option \<times> 'd \<times> Duration"

text \<open>
  One call of a collaborator: run it on its part of the world at the present time, let
  the clock advance by the time it took and log the call.
\<close>

definition do_local_Delete ::
  "('l, 'r, 'd) Library \<Rightarrow> string \<Rightarrow> ('l, 'r, 'd) world \<Rightarrow> error option \<times> ('l, 'r, 'd) world" where
  "do_local_Delete q h w =
     (case local_Delete q h (clock w) (local_bytes w) of
        (err, l', dt) \<Rightarrow>
          (err, w\<lparr>local_bytes := l', clock := clock w + dt,
                  calls := calls w @ [CallLocalDelete h]\<rparr>))"

definition do_remote_Delete ::
  "('l, 'r, 'd) Library \<Rightarrow> string \<Rightarrow> ('l, 'r, 'd) world \<Rightarrow> error option \<times> ('l, 'r, 'd) world" where
  "do_remote_Delete q h w =
     (case remote_Delete q h (clock w) (remote_bytes w) of
        (err, r', dt) \<Rightarrow>
          (err, w\<lparr>remote_bytes := r', clock := clock w + dt,
                  calls := calls w @ [CallRemoteDelete h]\<rparr>))"

definition do_UpdatePath ::
  "('l, 'r, 'd) Library \<Rightarrow> Context \<Rightarrow> string \<Rightarrow> string \<Rightarrow> ('l, 'r, 'd) world
     \<Rightarrow> error option \<times> ('l, 'r, 'd) world" where
  "do_UpdatePath q ctx h p w =
     (case queries_UpdatePath q ctx h p (clock w) (records w) of
        (err, d', dt) \<Rightarrow>
          (err, w\<lparr>records := d', clock := clock w + dt,
                  calls := calls w @ [CallUpdatePath ctx h p]\<rparr>))"

definition do_queries_Delete ::
  "('l, 'r, 'd) Library \<Rightarrow> Context \<Rightarrow> string \<Rightarrow> ('l, 'r, 'd) world
     \<Rightarrow> error option \<times> ('l, 'r, 'd) world" where
  "do_queries_Delete q ctx h w =
     (case queries_Delete q ctx h (clock w) (records w) of
        (err, d', dt) \<Rightarrow>
          (err, w\<lparr>records := d', clock := clock w + dt,
                  calls := calls w @ [CallQueriesDelete ctx h]\<rparr>))"

text \<open>
  \<^verbatim>\<open>
  func (q Library) Furlough(v *Video) error {
      ctx, cancel := context.WithTimeout(context.Background(), 5*time.Second)
      defer cancel()
      err := q.local.Delete(v.SDHash)
      if err != nil { return err }
      err = q.queries.UpdatePath(ctx, v.SDHash, "")
      if err != nil { return err }
      return nil
  }
  \<close>
  The context is made on entry, so its deadline is five seconds after the time of entry,
  whatever time the byte deletion takes.
\<close>

definition Furlough ::
  "('l, 'r, 'd) Library \<Rightarrow> Video \<Rightarrow> ('l, 'r, 'd) world \<Rightarrow> error option \<times> ('l, 'r, 'd) world" where
  "Furlough q v w =
     (let ctx = WithTimeout Background (5 * Second) (clock w) in
      case do_local_Delete q (SDHash v) w of
        (Some err, w1) \<Rightarrow> (Some err, w1)
      | (None, w1) \<Rightarrow>
          (case do_UpdatePath q ctx (SDHash v) '''' w1 of
             (Some err, w2) \<Rightarrow> (Some err, w2)
           | (None, w2) \<Rightarrow> (None, w2)))"

text \<open>
  \<^verbatim>\<open>
  func (q Library) Retire(v *Video) error {
      ctx, cancel := context.WithTimeout(context.Background(), 5*time.Second)
      defer cancel()
      err := q.remote.Delete(v.SDHash)
      if err != nil { return err }
      err = q.queries.Delete(ctx, v.SDHash)
      if err != nil { return err }
      return nil
  }
  \<close>
\<close>

definition Retire ::
  "('l, 'r, 'd) Library \<Rightarrow> Video \<Rightarrow> ('l, 'r, 'd) world \<Rightarrow> error option \<times> ('l, 'r, 'd) world" where
  "Retire q v w =
     (let ctx = WithTimeout Background (5 * Second) (clock w) in
      case do_remote_Delete q (SDHash v) w of
        (Some err, w1) \<Rightarrow> (Some err, w1)
      | (None, w1) \<Rightarrow>
          (case do_queries_Delete q ctx (SDHash v) w1 of
             (Some err, w2) \<Rightarrow> (Some err, w2)
           | (None, w2) \<Rightarrow> (None, w2)))"

text \<open>The context both operations make when entered at time \<open>t\<close>.\<close>

definition entry_ctx :: "Time \<Rightarrow> Context" where
  "entry_ctx t = WithDeadline Background (t + 5 * Second)"


subsection \<open>Sample collaborators\<close>

text \<open>
  Concrete drivers on which the model can be run.  A byte store holds the stored hashes
  as a list; deleting takes \<open>latency\<close> nanoseconds.  One byte store always fails, and one
  gives up after a timeout of its own of 30 seconds and reports that as
  \<open>DeadlineExceeded\<close>.  The metadata table \<open>sdHash \<mapsto> Video\<close> is an association list; an
  operation on it needs \<open>latency\<close> nanoseconds and reports \<open>DeadlineExceeded\<close>, at the
  deadline, when the context it is given ends before it is done.
\<close>

definition bytes_Delete ::
  "Duration \<Rightarrow> string \<Rightarrow> Time \<Rightarrow> string list \<Rightarrow> error option \<times> string list \<times> Duration" where
  "bytes_Delete latency h now l = (None, removeAll h l, latency)"

definition failing_Delete ::
  "string \<Rightarrow> Time \<Rightarrow> string list \<Rightarrow> error option \<times> string list \<times> Duration" where
  "failing_Delete h now l = (Some (ErrOther ''permission denied''), l, 0)"

definition timing_out_Delete ::
  "string \<Rightarrow> Time \<Rightarrow> string list \<Rightarrow> error option \<times> string list \<times> Duration" where
  "timing_out_Delete h now l = (Some DeadlineExceeded, l, 30 * Second)"

fun deadline_of :: "Context \<Rightarrow> Time option" where
  "deadline_of Background = None"
| "deadline_of (WithDeadline parent t) =
     (case deadline_of parent of None \<Rightarrow> Some t | Some t' \<Rightarrow> Some (min t t'))"

definition table_UpdatePath ::
  "Duration \<Rightarrow> Context \<Rightarrow> string \<Rightarrow> string \<Rightarrow> Time \<Rightarrow> (string \<times> Video) list
     \<Rightarrow> error option \<times> (string \<times> Video) list \<times> Duration" where
  "table_UpdatePath latency ctx h p now d =
     (case deadline_of ctx of
        None \<Rightarrow>
          (None, map (\<lambda>(k, v). if k = h then (k, v\<lparr>localPath := p\<rparr>) else (k, v)) d, latency)
      | Some t \<Rightarrow>
          if now + latency \<le> t
          then (None, map (\<lambda>(k, v). if k = h then (k, v\<lparr>localPath := p\<rparr>) else (k, v)) d,
                latency)
          else (Some DeadlineExceeded, d, max 0 (t - now)))"

definition table_Delete ::
  "Duration \<Rightarrow> Context \<Rightarrow> string \<Rightarrow> Time \<Rightarrow> (string \<times> Video) list
     \<Rightarrow> error option \<times> (string \<times> Video) list \<times> Duration" where
  "table_Delete latency ctx h now d =
     (case deadline_of ctx of
        None \<Rightarrow> (None, filter (\<lambda>(k, v). k \<noteq> h) d, latency)
      | Some t \<Rightarrow>
          if now + latency \<le> t
          then (None, filter (\<lambda>(k, v). k \<noteq> h) d, latency)
          else (Some DeadlineExceeded, d, max 0 (t - now)))"

definition sample_video :: Video where
  "sample_video = \<lparr>SDHash = ''abc'', URL = ''lbry://one'', localPath = ''/videos/abc'',
     remoteURL = ''s3://abc'', Size = 10000, CreatedAt = 1, LastAccessed = 2\<rparr>"

definition sample_world :: "(string list, string list, (string \<times> Video) list) world" where
  "sample_world = \<lparr>local_bytes = [''abc''], remote_bytes = [''abc''],
     records = [(''abc'', sample_video)], clock = 0, calls = []\<rparr>"

text \<open>Everything takes a millisecond.\<close>

definition good_library :: "(string list, string list, (string \<times> Video) list) Library" where
  "good_library = \<lparr>local_Delete = bytes_Delete 1000000, remote_Delete = bytes_Delete 1000000,
     queries_UpdatePath = table_UpdatePath 1000000, queries_Delete = table_Delete 1000000\<rparr>"

text \<open>The byte stores fail.\<close>

definition broken_library :: "(string list, string list, (string \<times> Video) list) Library" where
  "broken_library = \<lparr>local_Delete = failing_Delete, remote_Delete = failing_Delete,
     queries_UpdatePath = table_UpdatePath 1000000, queries_Delete = table_Delete 1000000\<rparr>"

text \<open>The metadata table needs six seconds.\<close>

definition slow_library :: "(string list, string list, (string \<times> Video) list) Library" where
  "slow_library = \<lparr>local_Delete = bytes_Delete 1000000, remote_Delete = bytes_Delete 1000000,
     queries_UpdatePath = table_UpdatePath (6 * Second), queries_Delete = table_Delete (6 * Second)\<rparr>"

text \<open>Deleting the bytes takes six seconds, the metadata table a millisecond.\<close>

definition slow_bytes_library :: "(string list, string list, (string \<times> Video) list) Library" where
  "slow_bytes_library =
     \<lparr>local_Delete = bytes_Delete (6 * Second), remote_Delete = bytes_Delete (6 * Second),
      queries_UpdatePath = table_UpdatePath 1000000, queries_Delete = table_Delete 1000000\<rparr>"

text \<open>The byte stores give up after their own timeout.\<close>

definition timeout_library :: "(string list, string list, (string \<times> Video) list) Library" where
  "timeout_library = \<lparr>local_Delete = timing_out_Delete, remote_Delete = timing_out_Delete,
     queries_UpdatePath = table_UpdatePath 1000000, queries_Delete = table_Delete 1000000\<rparr>"

section \<open>Dispatcher and worker pool: \<^verbatim>\<open>pkg/dispatcher\<close>\<close>

text \<open>
  The text of the package (\<^verbatim>\<open>Task\<close>, \<^verbatim>\<open>Worker\<close>, \<^verbatim>\<open>Dispatcher\<close>, \<^verbatim>\<open>Start\<close>, \<^verbatim>\<open>Dispatch\<close>,
  \<^verbatim>\<open>Stop\<close>) is the second part of the file \<^verbatim>\<open>pkg/mfr/mfr_test.go\<close> of the sources, from its
  line 123 on.

  The dispatcher is a set of goroutines that meet on channels.  The model is an
  interleaving semantics: the state records where every goroutine stands in its code and
  what the buffered channels hold, and \<open>step\<close> performs one atomic action chosen by the
  scheduler, returning \<open>None\<close> when the goroutines involved are not at that point or are
  blocked.  A send on an unbuffered channel (\<^verbatim>\<open>make(chan T)\<close>) is one joint action of the
  sender and the receiver.
\<close>

record 'a chan =
  buf :: "'a list"
  cap :: nat

definition make_chan :: "nat \<Rightarrow> 'a chan" where
  "make_chan n = \<lparr>buf = [], cap = n\<rparr>"

text \<open>
  Where a worker goroutine of \<^verbatim>\<open>Worker.Start\<close> stands:
  \<^item> \<open>WAdd\<close>: spawned, before \<^verbatim>\<open>w.wait.Add(1)\<close>;
  \<^item> \<open>WPublish\<close>: before \<^verbatim>\<open>w.pool <- w.tasks\<close>;
  \<^item> \<open>WSelect\<close>: in the \<^verbatim>\<open>select\<close>, waiting for a task or for stop;
  \<^item> \<open>WDo t\<close>: has received \<open>t\<close>, before \<^verbatim>\<open>w.workload.Do(t)\<close>;
  \<^item> \<open>WAck\<close>: has received stop, before \<^verbatim>\<open>w.wait.Done()\<close>;
  \<^item> \<open>WExited\<close>: returned.
  A task is represented by its payload; its \<^verbatim>\<open>Dispatcher\<close> field points back to the one
  dispatcher of the model.
\<close>

datatype 'p wstate = WAdd | WPublish | WSelect | WDo 'p | WAck | WExited

text \<open>
  The routing goroutine of \<^verbatim>\<open>Start\<close>: in its \<^verbatim>\<open>select\<close>; in \<^verbatim>\<open>w.Stop()\<close> for worker \<open>i\<close>
  before the send \<^verbatim>\<open>w.stopChan <- true\<close>; in \<^verbatim>\<open>w.Stop()\<close> for worker \<open>i\<close> at
  \<^verbatim>\<open>w.wait.Wait()\<close>; returned.
\<close>

datatype rstate = RSelect | RStop nat | RWait nat | RReturned

text \<open>
  The goroutine spawned for each incoming task: before \<^verbatim>\<open>workerQueue := <-d.workerPool\<close>,
  or holding the task channel of worker \<open>w\<close> before \<^verbatim>\<open>workerQueue <- task\<close>.
\<close>

datatype 'p fstate = FTake 'p | FSend nat 'p

text \<open>
  The caller of \<^verbatim>\<open>Dispatcher.Stop\<close>: not called, at \<^verbatim>\<open>d.stopChan <- true\<close>, returned.  One
  call of \<^verbatim>\<open>Stop\<close> is modelled; the routing goroutine receives from \<^verbatim>\<open>d.stopChan\<close> once.
\<close>

datatype cstate = StopNotCalled | StopSending | StopReturned

record ('p, 'ws) dispatcher =
  workerPool :: "nat chan"
  tasks :: "'p chan"
  workers :: "'p wstate list"
  wait :: "int list"
  router :: rstate
  forwarders :: "'p fstate list"
  stop_caller :: cstate
  wl_state :: 'ws

text \<open>
  \<^verbatim>\<open>
  func Start(workers int, wl Workload) Dispatcher {
      d := Dispatcher{
          workerPool: make(chan chan Task, 200),
          tasks:      make(chan Task, 2000),
          stopChan:   make(chan bool),
      }
      for i := 0; i < workers; i++ {
          w := NewWorker(i, d.workerPool, wl)
          d.workers = append(d.workers, &w)
          w.Start()
      }
      go func() { ... }()
      return d
  }
  \<close>
  The loop runs \<open>nat workers\<close> times (not at all for \<open>workers \<le> 0\<close>).  The workload is
  represented by its state \<open>wl\<close>; its \<^verbatim>\<open>Do\<close> method is a parameter of \<open>step\<close>.
\<close>

definition Start :: "int \<Rightarrow> 'ws \<Rightarrow> ('p, 'ws) dispatcher" where
  "Start n wl =
     \<lparr>workerPool = make_chan 200,
      tasks = make_chan 2000,
      workers = replicate (nat n) WAdd,
      wait = replicate (nat n) 0,
      router = RSelect,
      forwarders = [],
      stop_caller = StopNotCalled,
      wl_state = wl\<rparr>"

datatype 'p action =
    ADispatch 'p
  | ACallStop
  | ARouterTask
  | ARouterStop
  | AFwdTake nat
  | AFwdSend nat
  | AWorker nat
  | AWorkerStop
  | ARouterWait

text \<open>
  The \<^verbatim>\<open>for _, w := range d.workers\<close> loop of the stop branch: the next worker to stop, or
  \<^verbatim>\<open>return\<close> after the last.
\<close>

definition next_stop :: "('p, 'ws) dispatcher \<Rightarrow> nat \<Rightarrow> rstate" where
  "next_stop s i = (if i < length (workers s) then RStop i else RReturned)"

text \<open>
  The next instruction of worker \<open>i\<close> that it executes alone:
  \<^verbatim>\<open>
  go func() {
      w.wait.Add(1)
      for {
          w.pool <- w.tasks
          select {
          case t := <-w.tasks:
              err := w.workload.Do(t)     // the error is only logged
          case <-w.stopChan:
              w.wait.Done()
              return
          }
      }
  }()
  \<close>
  The send to the pool blocks while the pool's buffer is full.
\<close>

definition worker_step ::
  "('p \<Rightarrow> 'ws \<Rightarrow> error option \<times> 'ws) \<Rightarrow> nat \<Rightarrow> ('p, 'ws) dispatcher
     \<Rightarrow> ('p, 'ws) dispatcher option" where
  "worker_step Do i s =
     (if length (workers s) \<le> i then None
      else case workers s ! i of
        WAdd \<Rightarrow>
          Some (s\<lparr>wait := (wait s)[i := wait s ! i + 1], workers := (workers s)[i := WPublish]\<rparr>)
      | WPublish \<Rightarrow>
          if length (buf (workerPool s)) < cap (workerPool s)
          then Some (s\<lparr>workerPool := (workerPool s)\<lparr>buf := buf (workerPool s) @ [i]\<rparr>,
                       workers := (workers s)[i := WSelect]\<rparr>)
          else None
      | WSelect \<Rightarrow> None
      | WDo t \<Rightarrow>
          Some (s\<lparr>wl_state := snd (Do t (wl_state s)), workers := (workers s)[i := WPublish]\<rparr>)
      | WAck \<Rightarrow>
          Some (s\<lparr>wait := (wait s)[i := wait s ! i - 1], workers := (workers s)[i := WExited]\<rparr>)
      | WExited \<Rightarrow> None)"

text \<open>
  One action of the system.
  \<^item> \<open>ADispatch p\<close>: \<^verbatim>\<open>d.tasks <- Task{Payload: p, Dispatcher: d}\<close> in \<^verbatim>\<open>Dispatch\<close>; blocked
    while the intake buffer is full.
  \<^item> \<open>ACallStop\<close>: a caller enters \<^verbatim>\<open>Dispatcher.Stop\<close>.
  \<^item> \<open>ARouterTask\<close>: the routing loop receives from \<^verbatim>\<open>d.tasks\<close> and spawns the goroutine
    that will hand the task over.
  \<^item> \<open>ARouterStop\<close>: the send \<^verbatim>\<open>d.stopChan <- true\<close> of \<^verbatim>\<open>Dispatcher.Stop\<close> meets the
    \<^verbatim>\<open>case <-d.stopChan\<close> of the routing loop; the send is the last statement of
    \<^verbatim>\<open>Dispatcher.Stop\<close>, which thereby returns.
  \<^item> \<open>AFwdTake k\<close>, \<open>AFwdSend k\<close>: the two statements of the \<open>k\<close>-th hand-over goroutine.
  \<^item> \<open>AWorker i\<close>: \<open>worker_step\<close>.
  \<^item> \<open>AWorkerStop\<close>: the send \<^verbatim>\<open>w.stopChan <- true\<close> of \<^verbatim>\<open>Worker.Stop\<close>, called by the
    routing goroutine, meets the \<^verbatim>\<open>case <-w.stopChan\<close> of that worker.
  \<^item> \<open>ARouterWait\<close>: \<^verbatim>\<open>w.wait.Wait()\<close> returns, the counter being zero.
\<close>

fun step ::
  "('p \<Rightarrow> 'ws \<Rightarrow> error option \<times> 'ws) \<Rightarrow> 'p action \<Rightarrow> ('p, 'ws) dispatcher
     \<Rightarrow> ('p, 'ws) dispatcher option" where
  "step Do (ADispatch p) s =
     (if length (buf (tasks s)) < cap (tasks s)
      then Some (s\<lparr>tasks := (tasks s)\<lparr>buf := buf (tasks s) @ [p]\<rparr>\<rparr>)
      else None)"
| "step Do ACallStop s =
     (if stop_caller s = StopNotCalled then Some (s\<lparr>stop_caller := StopSending\<rparr>) else None)"
| "step Do ARouterTask s =
     (case (router s, buf (tasks s)) of
        (RSelect, t # ts) \<Rightarrow>
          Some (s\<lparr>tasks := (tasks s)\<lparr>buf := ts\<rparr>, forwarders := forwarders s @ [FTake t]\<rparr>)
      | _ \<Rightarrow> None)"
| "step Do ARouterStop s =
     (if router s = RSelect \<and> stop_caller s = StopSending
      then Some (s\<lparr>router := next_stop s 0, stop_caller := StopReturned\<rparr>)
      else None)"
| "step Do (AFwdTake k) s =
     (if length (forwarders s) \<le> k then None
      else case (forwarders s ! k, buf (workerPool s)) of
        (FTake t, w # ws) \<Rightarrow>
          Some (s\<lparr>workerPool := (workerPool s)\<lparr>buf := ws\<rparr>,
                  forwarders := (forwarders s)[k := FSend w t]\<rparr>)
      | _ \<Rightarrow> None)"
| "step Do (AFwdSend k) s =
     (if length (forwarders s) \<le> k then None
      else case forwarders s ! k of
        FSend w t \<Rightarrow>
          if w < length (workers s) \<and> workers s ! w = WSelect
          then Some (s\<lparr>workers := (workers s)[w := WDo t],
                       forwarders := take k (forwarders s) @ drop (Suc k) (forwarders s)\<rparr>)
          else None
      | _ \<Rightarrow> None)"
| "step Do (AWorker i) s = worker_step Do i s"
| "step Do AWorkerStop s =
     (case router s of
        RStop i \<Rightarrow>
          if i < length (workers s) \<and> workers s ! i = WSelect
          then Some (s\<lparr>workers := (workers s)[i := WAck], router := RWait i\<rparr>)
          else None
      | _ \<Rightarrow> None)"
| "step Do ARouterWait s =
     (case router s of
        RWait i \<Rightarrow>
          if i < length (wait s) \<and> wait s ! i = 0
          then Some (s\<lparr>router := next_stop s (Suc i)\<rparr>)
          else None
      | _ \<Rightarrow> None)"

text \<open>A schedule is a list of actions; it runs as long as each action is enabled.\<close>

fun run ::
  "('p \<Rightarrow> 'ws \<Rightarrow> error option \<times> 'ws) \<Rightarrow> 'p action list \<Rightarrow> ('p, 'ws) dispatcher
     \<Rightarrow> ('p, 'ws) dispatcher option" where
  "run Do [] s = Some s"
| "run Do (a # as) s = (case step Do a s of None \<Rightarrow> None | Some s' \<Rightarrow> run Do as s')"

text \<open>
  The workload of \<^verbatim>\<open>dispatcher_test.go\<close>:
  \<^verbatim>\<open>
  func (wl *testWorkload) Do(t Task) error {
      wl.doCalled++
      pl := t.Payload.(struct{ URL, SDHash string })
      wl.seenTasks = append(wl.seenTasks, pl.URL+pl.SDHash)
      return nil
  }
  \<close>
\<close>

text \<open>
  \<open>doCalled\<close> is a Go \<^verbatim>\<open>int\<close>, 64 bits wide on the platforms the tests run on: \<^verbatim>\<open>++\<close> wraps
  around.
\<close>

record testWorkload =
  doCalled :: "64 word"
  seenTasks :: "string list"

definition testWorkload_Do ::
  "string \<times> string \<Rightarrow> testWorkload \<Rightarrow> error option \<times> testWorkload" where
  "testWorkload_Do pl wl =
     (None, wl\<lparr>doCalled := doCalled wl + 1, seenTasks := seenTasks wl @ [fst pl @ snd pl]\<rparr>)"

definition new_testWorkload :: testWorkload where
  "new_testWorkload = \<lparr>doCalled = 0, seenTasks = []\<rparr>"

subsection \<open>Invariants of the dispatcher\<close>

text \<open>
  The shutdown invariant relates the position of the routing goroutine to the workers:
  workers before the one being stopped have exited, the one being waited for has
  received stop, all others have not; a wait-group counter is 1 between \<^verbatim>\<open>Add(1)\<close> and
  \<^verbatim>\<open>Done()\<close> and 0 otherwise; and \<^verbatim>\<open>Dispatcher.Stop\<close> has returned exactly when the routing
  goroutine has left its \<^verbatim>\<open>select\<close>.
\<close>

definition stopping :: "'p wstate \<Rightarrow> bool" where
  "stopping w = (w = WAck \<or> w = WExited)"

definition counted :: "'p wstate \<Rightarrow> int" where
  "counted w = (if w = WAdd \<or> w = WExited then 0 else 1)"

fun stop_progress :: "rstate \<Rightarrow> nat \<Rightarrow> 'p wstate \<Rightarrow> bool" where
  "stop_progress RSelect j w = (\<not> stopping w)"
| "stop_progress (RStop i) j w = (if j < i then w = WExited else \<not> stopping w)"
| "stop_progress (RWait i) j w = (if j < i then w = WExited else if j = i then stopping w else \<not> stopping w)"
| "stop_progress RReturned j w = (w = WExited)"

fun router_in_range :: "rstate \<Rightarrow> nat \<Rightarrow> bool" where
  "router_in_range (RStop i) n = (i < n)"
| "router_in_range (RWait i) n = (i < n)"
| "router_in_range r n = True"

definition stop_inv :: "('p, 'ws) dispatcher \<Rightarrow> bool" where
  "stop_inv s =
     (length (wait s) = length (workers s) \<and>
      router_in_range (router s) (length (workers s)) \<and>
      (stop_caller s = StopReturned \<longleftrightarrow> router s \<noteq> RSelect) \<and>
      (\<forall>j < length (workers s).
          wait s ! j = counted (workers s ! j) \<and> stop_progress (router s) j (workers s ! j)))"

text \<open>
  The pool invariant: the task channels that are published (in the pool's buffer or held
  by a hand-over goroutine) are pairwise different and belong to workers that have
  published and not yet received a task.
\<close>

fun held :: "'p fstate list \<Rightarrow> nat list" where
  "held [] = []"
| "held (FTake t # fs) = held fs"
| "held (FSend w t # fs) = w # held fs"

definition parked :: "'p wstate \<Rightarrow> bool" where
  "parked w = (w = WSelect \<or> w = WAck \<or> w = WExited)"

definition published :: "('p, 'ws) dispatcher \<Rightarrow> nat list" where
  "published s = buf (workerPool s) @ held (forwarders s)"

definition pool_inv :: "('p, 'ws) dispatcher \<Rightarrow> bool" where
  "pool_inv s =
     (distinct (published s) \<and>
      (\<forall>i \<in> set (published s). i < length (workers s) \<and> parked (workers s ! i)))"

subsection \<open>Tasks in flight, work left and quiescence\<close>

text \<open>
  Where the tasks are: the payloads that the schedule has put into the intake buffer, the
  task a worker has received and not yet passed to \<^verbatim>\<open>workload.Do\<close>, the task a hand-over
  goroutine carries, and the workload state after \<^verbatim>\<open>Do\<close> has run on a list of tasks in
  turn.
\<close>

fun adispatched :: "'p action \<Rightarrow> 'p list" where
  "adispatched (ADispatch p) = [p]"
| "adispatched a = []"

definition dispatched :: "'p action list \<Rightarrow> 'p list" where
  "dispatched as = concat (map adispatched as)"

fun wtask :: "'p wstate \<Rightarrow> 'p list" where
  "wtask (WDo t) = [t]"
| "wtask w = []"

definition in_hand :: "'p wstate list \<Rightarrow> 'p list" where
  "in_hand ws = concat (map wtask ws)"

fun ftask :: "'p fstate \<Rightarrow> 'p" where
  "ftask (FTake t) = t"
| "ftask (FSend w t) = t"

definition process :: "('p \<Rightarrow> 'ws \<Rightarrow> error option \<times> 'ws) \<Rightarrow> 'ws \<Rightarrow> 'p list \<Rightarrow> 'ws" where
  "process Do wl ps = foldl (\<lambda>w t. snd (Do t w)) wl ps"

text \<open>
  \<open>accounted Do wl D s ps\<close>: of the dispatched tasks \<open>D\<close>, each is in the intake buffer, with
  a hand-over goroutine, in a worker's hands, or among the tasks \<open>ps\<close> that \<^verbatim>\<open>Do\<close> has been
  run on, in that order, from the initial workload state \<open>wl\<close>.
\<close>

definition accounted ::
  "('p \<Rightarrow> 'ws \<Rightarrow> error option \<times> 'ws) \<Rightarrow> 'ws \<Rightarrow> 'p list \<Rightarrow> ('p, 'ws) dispatcher \<Rightarrow> 'p list \<Rightarrow> bool"
  where
  "accounted Do wl D s ps =
     (wl_state s = process Do wl ps \<and>
      mset D = mset (buf (tasks s)) + mset (map ftask (forwarders s)) +
               mset (in_hand (workers s)) + mset ps)"

text \<open>
  The actions of the dispatcher's own goroutines, as opposed to the calls of \<^verbatim>\<open>Dispatch\<close>
  and \<^verbatim>\<open>Stop\<close> from outside.  A state is quiescent when none of them is enabled: every
  goroutine is blocked or has returned.
\<close>

fun internal :: "'p action \<Rightarrow> bool" where
  "internal (ADispatch p) = False"
| "internal ACallStop = False"
| "internal a = True"

definition internal_actions :: "('p, 'ws) dispatcher \<Rightarrow> 'p action list" where
  "internal_actions s =
     [ARouterTask, ARouterStop, AWorkerStop, ARouterWait] @
     map AFwdTake [0..<length (forwarders s)] @
     map AFwdSend [0..<length (forwarders s)] @
     map AWorker [0..<length (workers s)]"

definition quiescent ::
  "('p \<Rightarrow> 'ws \<Rightarrow> error option \<times> 'ws) \<Rightarrow> ('p, 'ws) dispatcher \<Rightarrow> bool" where
  "quiescent Do s = list_all (\<lambda>a. step Do a s = None) (internal_actions s)"

text \<open>
  The goroutines of the dispatcher that have not returned: workers, the routing goroutine
  and the hand-over goroutines.
\<close>

definition goroutines :: "('p, 'ws) dispatcher \<Rightarrow> nat" where
  "goroutines s =
     length (filter (\<lambda>w. w \<noteq> WExited) (workers s)) +
     (if router s = RReturned then 0 else 1) +
     length (forwarders s)"

text \<open>
  The number of internal actions still to come before the dispatcher is idle, as long as
  \<^verbatim>\<open>Stop\<close> is not called: a new worker has \<^verbatim>\<open>Add(1)\<close> and the publication of its channel
  before it, a worker holding a task has \<^verbatim>\<open>Do\<close> and the publication, a buffered task has
  these two and the three actions that route it to a worker.
\<close>

fun wcost :: "'p wstate \<Rightarrow> nat" where
  "wcost WAdd = 2"
| "wcost WPublish = 1"
| "wcost WSelect = 0"
| "wcost (WDo t) = 2"
| "wcost WAck = 1"
| "wcost WExited = 0"

fun fcost :: "'p fstate \<Rightarrow> nat" where
  "fcost (FTake t) = 4"
| "fcost (FSend w t) = 3"

definition work_left :: "('p, 'ws) dispatcher \<Rightarrow> nat" where
  "work_left s =
     5 * length (buf (tasks s)) + sum_list (map fcost (forwarders s)) +
     sum_list (map wcost (workers s))"

text \<open>\<^verbatim>\<open>Stop\<close> has not been called.\<close>

definition no_stop :: "('p, 'ws) dispatcher \<Rightarrow> bool" where
  "no_stop s = (router s = RSelect \<and> stop_caller s = StopNotCalled)"

text \<open>Every worker that waits in its \<^verbatim>\<open>select\<close> has its task channel published.\<close>

definition published_all :: "('p, 'ws) dispatcher \<Rightarrow> bool" where
  "published_all s =
     (\<forall>i < length (workers s). workers s ! i = WSelect \<longrightarrow> i \<in> set (published s))"


text \<open>Sample states and schedules of a one-worker pool running the test workload.\<close>

definition one_worker :: "(string \<times> string, testWorkload) dispatcher" where
  "one_worker = Start 1 new_testWorkload"

definition sample_payload :: "string \<times> string" where
  "sample_payload = (''url'', ''hash'')"

definition until_task_received :: "(string \<times> string) action list" where
  "until_task_received =
     [AWorker 0, AWorker 0, ADispatch sample_payload, ARouterTask, AFwdTake 0, AFwdSend 0]"

definition stop_early :: "(string \<times> string) action list" where
  "stop_early = until_task_received @ [ACallStop, ARouterStop]"

text \<open>Two workers: stop has been handed to the first and acknowledged, not yet to the second.\<close>

definition two_workers :: "(string \<times> string, testWorkload) dispatcher" where
  "two_workers = Start 2 new_testWorkload"

definition stop_first_worker :: "(string \<times> string) action list" where
  "stop_first_worker =
     [AWorker 0, AWorker 0, AWorker 1, AWorker 1, ACallStop, ARouterStop, AWorkerStop, AWorker 0,
      ARouterWait]"

definition stop_complete :: "(string \<times> string) action list" where
  "stop_complete = until_task_received @
     [AWorker 0, AWorker 0, ACallStop, ARouterStop, AWorkerStop, AWorker 0, ARouterWait]"


text \<open>
  Two workers and three tasks, no \<^verbatim>\<open>Stop\<close>: the workers start, the tasks are dispatched,
  routed and handled until nothing is left to do.
\<close>

definition three_payloads :: "(string \<times> string) list" where
  "three_payloads = [(''u1'', ''h1''), (''u2'', ''h2''), (''u3'', ''h3'')]"

definition drain_three :: "(string \<times> string) action list" where
  "drain_three =
     [AWorker 0, ADispatch (''u1'', ''h1''), AWorker 1, AWorker 1, ARouterTask,
      ADispatch (''u2'', ''h2''), ADispatch (''u3'', ''h3''), AFwdTake 0, AFwdSend 0, AWorker 0,
      ARouterTask, ARouterTask, AWorker 1, AFwdTake 1, AWorker 1, AFwdTake 0,
      AFwdSend 1, AFwdSend 0, AWorker 0, AWorker 1, AWorker 0, AWorker 1]"
section \<open>Popularity queue: \<^verbatim>\<open>pkg/mfr\<close>\<close>

text \<open>
  Modelled from the spec: the implementation of the queue (\<^verbatim>\<open>NewQueue\<close>, \<^verbatim>\<open>Hit\<close>,
  \<^verbatim>\<open>Peek\<close>, \<^verbatim>\<open>Pop\<close>, \<^verbatim>\<open>Release\<close>, \<^verbatim>\<open>Fold\<close> and the entry type with its \<^verbatim>\<open>Hits()\<close>) is
  missing from the sources; only \<^verbatim>\<open>mfr_test.go\<close> is there.  The definitions below follow
  sections 3 and 4.1 of the spec.  An entry has a key, the value supplied at first
  insertion, a 64-bit hit counter and the \<open>released\<close> flag.  The queue is the list of its
  entries in insertion order, at most one per key, together with the aggregate \<open>hits\<close>
  accumulator; the hash index and the heap of the spec are two views of that list.  The
  queue's mutex makes every operation atomic, so an interleaving of concurrent callers is
  a sequence of operations.
\<close>

record 'v Item =
  key :: string
  Value :: 'v
  item_hits :: "64 word"
  released :: bool


record 'v Queue =
  entries :: "'v Item list"
  hits :: "64 word"

definition NewQueue :: "'v Queue" where
  "NewQueue = \<lparr>entries = [], hits = 0\<rparr>"

text \<open>
  Modelled from the spec: ``\<^verbatim>\<open>Hit(key, value)\<close> increments the counter for \<open>key\<close>.  If
  absent, inserts \<open>{key, value, hits=1, released=false}\<close>.  If present and released,
  clears the flag.''  The value of a present entry is never replaced.  The queue's
  accumulator counts every \<^verbatim>\<open>Hit\<close>.
\<close>

fun hit_entries :: "string \<Rightarrow> 'v \<Rightarrow> 'v Item list \<Rightarrow> 'v Item list" where
  "hit_entries k v [] = [\<lparr>key = k, Value = v, item_hits = 1, released = False\<rparr>]"
| "hit_entries k v (e # es) =
     (if key e = k then e\<lparr>item_hits := item_hits e + 1, released := False\<rparr> # es
      else e # hit_entries k v es)"

definition Hit :: "string \<Rightarrow> 'v \<Rightarrow> 'v Queue \<Rightarrow> 'v Queue" where
  "Hit k v q = q\<lparr>entries := hit_entries k v (entries q), hits := hits q + 1\<rparr>"

text \<open>
  Modelled from the spec: the highest-hit non-released entry.  Among entries with equal
  hits the one inserted first is taken (the spec's ``insertion-order sequence number'').
\<close>

fun top_entry :: "'v Item list \<Rightarrow> 'v Item option" where
  "top_entry [] = None"
| "top_entry (e # es) =
     (if released e then top_entry es
      else case top_entry es of
        None \<Rightarrow> Some e
      | Some b \<Rightarrow> if item_hits e < item_hits b then Some b else Some e)"


text \<open>
  Modelled from the spec: ``\<^verbatim>\<open>Pop()\<close> atomically returns and removes the highest-hit
  non-released entry, or nil if empty'', and ``\<^verbatim>\<open>Pop\<close> does not decrement'' the accumulator.
\<close>

definition Pop :: "'v Queue \<Rightarrow> 'v Item option \<times> 'v Queue" where
  "Pop q =
     (case top_entry (entries q) of
        None \<Rightarrow> (None, q)
      | Some e \<Rightarrow> (Some e, q\<lparr>entries := filter (\<lambda>x. key x \<noteq> key e) (entries q)\<rparr>))"

text \<open>
  Modelled from the spec: ``\<^verbatim>\<open>Release(key)\<close> marks \<open>key\<close> as released (invisible to
  Pop/Peek) without removing it.''
\<close>

definition Release :: "string \<Rightarrow> 'v Queue \<Rightarrow> 'v Queue" where
  "Release k q =
     q\<lparr>entries := map (\<lambda>e. if key e = k then e\<lparr>released := True\<rparr> else e) (entries q)\<rparr>"

text \<open>Modelled from the spec: ``\<^verbatim>\<open>Fold(key)\<close> removes \<open>key\<close> entirely (hits lost).''\<close>

definition Fold :: "string \<Rightarrow> 'v Queue \<Rightarrow> 'v Queue" where
  "Fold k q = q\<lparr>entries := filter (\<lambda>e. key e \<noteq> k) (entries q)\<rparr>"

subsection \<open>Sequences of operations\<close>

datatype 'v op = OpHit string 'v | OpPeek | OpPop | OpRelease string | OpFold string

fun apply_op :: "'v op \<Rightarrow> 'v Queue \<Rightarrow> 'v Queue" where
  "apply_op (OpHit k v) q = Hit k v q"
| "apply_op OpPeek q = q"
| "apply_op OpPop q = snd (Pop q)"
| "apply_op (OpRelease k) q = Release k q"
| "apply_op (OpFold k) q = Fold k q"

definition run_ops :: "'v op list \<Rightarrow> 'v Queue \<Rightarrow> 'v Queue" where
  "run_ops ops q = foldl (\<lambda>q' x. apply_op x q') q ops"

fun is_Hit :: "'v op \<Rightarrow> bool" where
  "is_Hit (OpHit k v) = True"
| "is_Hit x = False"

text \<open>A run of \<^verbatim>\<open>Hit\<close>s, each given by its key and value.\<close>

definition hit_all :: "(string \<times> 'v) list \<Rightarrow> 'v Queue \<Rightarrow> 'v Queue" where
  "hit_all kvs q = foldl (\<lambda>q' (k, v). Hit k v q') q kvs"

text \<open>\<open>n\<close> successive \<^verbatim>\<open>Pop\<close>s: what they return, and the queue left.\<close>

fun pops :: "nat \<Rightarrow> 'v Queue \<Rightarrow> 'v Item option list \<times> 'v Queue" where
  "pops 0 q = ([], q)"
| "pops (Suc n) q =
     (case Pop q of (r, q') \<Rightarrow> (case pops n q' of (rs, q'') \<Rightarrow> (r # rs, q'')))"


text \<open>The state a run of \<^verbatim>\<open>Hit\<close>s on a new queue leads to, in closed form.\<close>

definition first_keys :: "string list \<Rightarrow> string list" where
  "first_keys ks = rev (remdups (rev ks))"

definition item_of :: "(string \<times> 'v) list \<Rightarrow> string \<Rightarrow> 'v Item" where
  "item_of kvs k =
     \<lparr>key = k, Value = the (map_of kvs k),
      item_hits = of_nat (count_list (map fst kvs) k), released = False\<rparr>"

subsection \<open>The workload of the test\<close>

text \<open>
  \<^verbatim>\<open>SetupTest\<close> of \<^verbatim>\<open>mfr_test.go\<close> hits three pinned keys 10000, 10000 and 9000 times and
  100000 fresh random keys once each, from four goroutines.  \<open>E1_workload\<close> says that a
  sequence of hits is an interleaving of these: the pinned keys are different, each comes
  with its own value every time, and every other key is hit exactly once.
\<close>

definition E1_workload ::
  "string \<Rightarrow> string \<Rightarrow> string \<Rightarrow> 'v \<Rightarrow> 'v \<Rightarrow> 'v \<Rightarrow> (string \<times> 'v) list \<Rightarrow> bool" where
  "E1_workload u1 u2 u3 c1 c2 c3 kvs =
     (distinct [u1, u2, u3] \<and>
      length kvs = 129000 \<and>
      count_list (map fst kvs) u1 = 10000 \<and>
      count_list (map fst kvs) u2 = 10000 \<and>
      count_list (map fst kvs) u3 = 9000 \<and>
      map_of kvs u1 = Some c1 \<and> map_of kvs u2 = Some c2 \<and> map_of kvs u3 = Some c3 \<and>
      list_all (\<lambda>k. k \<in> {u1, u2, u3} \<or> count_list (map fst kvs) k = 1) (map fst kvs))"

text \<open>
  Sample keys: the pinned keys are \<open>''u1''\<close>, \<open>''u2''\<close>, \<open>''u3''\<close> with the values 1, 2, 3;
  the \<open>i\<close>-th noise key is \<open>n\<close> followed by \<open>i\<close> times \<open>x\<close>, with value 0.
\<close>

definition noise_key :: "nat \<Rightarrow> string" where
  "noise_key i = CHR ''n'' # replicate i (CHR ''x'')"

definition noise_hits :: "(string \<times> nat) list" where
  "noise_hits = map (\<lambda>i. (noise_key i, 0)) [0..<100000]"

text \<open>The four goroutines one after the other, in the order the test starts them.\<close>

definition E1_in_order :: "(string \<times> nat) list" where
  "E1_in_order =
     replicate 10000 (''u1'', 1) @ replicate 10000 (''u2'', 2) @ replicate 9000 (''u3'', 3) @
     noise_hits"



section \<open>Fragment cache client: \<^verbatim>\<open>client\<close>\<close>

subsection \<open>The sd-hash pattern and \<^verbatim>\<open>fragmentURL\<close>\<close>

text \<open>
  Modelled from the spec: \<^verbatim>\<open>client.go\<close>, which declares \<^verbatim>\<open>sdHashRe\<close> and \<^verbatim>\<open>fragmentURL\<close>, is
  missing from the sources; only \<^verbatim>\<open>client_test.go\<close> is there.  The pattern is the spec's
  \<^verbatim>\<open>/streams/([0-9a-f]{96})/\<close>.  \<open>sdHashRe_here\<close> matches it at the start of a string and
  returns the group; \<open>sdHashRe_FindStringSubmatch\<close> finds the leftmost match, as Go's
  \<^verbatim>\<open>FindStringSubmatch\<close> does, and returns its group \<^verbatim>\<open>m[1]\<close>.
\<close>

definition is_lower_hex :: "char \<Rightarrow> bool" where
  "is_lower_hex c = (c \<in> set ''0123456789abcdef'')"

definition sdHashRe_here :: "string \<Rightarrow> string option" where
  "sdHashRe_here s =
     (if take 9 s = ''/streams/'' \<and> length (take 96 (drop 9 s)) = 96 \<and>
         list_all is_lower_hex (take 96 (drop 9 s)) \<and> take 1 (drop 105 s) = ''/''
      then Some (take 96 (drop 9 s)) else None)"

fun sdHashRe_FindStringSubmatch :: "string \<Rightarrow> string option" where
  "sdHashRe_FindStringSubmatch [] = None"
| "sdHashRe_FindStringSubmatch (c # cs) =
     (case sdHashRe_here (c # cs) of
        Some h \<Rightarrow> Some h
      | None \<Rightarrow> sdHashRe_FindStringSubmatch cs)"

text \<open>\<^verbatim>\<open>err.Error()\<close>.\<close>

fun error_message :: "error \<Rightarrow> string" where
  "error_message DeadlineExceeded = ''context deadline exceeded''"
| "error_message Canceled = ''context canceled''"
| "error_message (ErrOther m) = m"

text \<open>
  Modelled from the spec: ``\<^verbatim>\<open>fragmentURL(url, sdHash, name)\<close> composes the upstream fragment
  URL, but first validates that the \<open>sdHash\<close> matches the one parsable from \<open>url\<close> using the
  canonical regex pattern.  Mismatch yields an error whose message contains the literal
  \<^verbatim>\<open>remote sd hash mismatch\<close>.  With matching 96-hex hashes, returns
  \<^verbatim>\<open><server>/streams/<hash>/<name>\<close>.''  In \<^verbatim>\<open>Test_fragmentURL\<close> the first argument is a
  stream identifier that embeds no sd hash, and the call succeeds: the URL that is parsed
  is the one the server knows for that identifier.  That lookup belongs to the server, an
  external collaborator; it is the parameter \<open>remote\<close> (the identity function gives the
  reading where \<open>url\<close> itself is parsed).  The result is Go's pair of the URL and the
  error.
\<close>

definition fragmentURL ::
  "(string \<Rightarrow> string) \<Rightarrow> string \<Rightarrow> string \<Rightarrow> string \<Rightarrow> string \<Rightarrow> string \<times> error option" where
  "fragmentURL remote server url sdHash name =
     (case sdHashRe_FindStringSubmatch (remote url) of
        None \<Rightarrow> ('''', Some (ErrOther ''remote sd hash mismatch''))
      | Some h \<Rightarrow>
          if h = sdHash then (server @ ''/streams/'' @ sdHash @ ''/'' @ name, None)
          else ('''', Some (ErrOther ''remote sd hash mismatch'')))"

text \<open>The server and the streams of \<^verbatim>\<open>Test_fragmentURL\<close>; the server knows one stream.\<close>

definition test_server :: string where
  "test_server = ''http://t0.lbry.tv:18081''"

definition vanquish :: string where
  "vanquish = ''vanquish-trailer-(2021)-morgan-freeman,#b7b150d1bbca4650ad4ab921dd8d424bf77c1141''"

definition vanquish_sdHash :: string where
  "vanquish_sdHash =
     ''bec50ab288153ed03b0eb8dafd814daf19a187e07f8da4ad91cf778f5c39ac74d9d92ad6e3ebf2ddb6b7acea3cb8893a''"

definition other_sdHash :: string where
  "other_sdHash =
     ''0b8dfc049b2165fad5829aca24f2ddfae3acef8d73bc5e04ff8b932fce9fc463dc6cf3e638413f04536638d2e7218427''"

definition test_remote :: "string \<Rightarrow> string" where
  "test_remote url =
     (if url = vanquish then test_server @ ''/streams/'' @ vanquish_sdHash @ ''/master.m3u8''
      else '''')"

subsection \<open>\<^verbatim>\<open>RestoreCache\<close> and \<^verbatim>\<open>getCachedFragment\<close>\<close>

text \<open>
  Modelled from the spec: \<^verbatim>\<open>RestoreCache\<close>, \<^verbatim>\<open>getCachedFragment\<close> and the cache entry type are
  in the missing \<^verbatim>\<open>client.go\<close>.  The directory under the cache root is a list of named
  entries, each a regular file with its size or a directory.  A cache entry has the
  spec's fields; \<open>fragment_Size\<close> is its \<^verbatim>\<open>Size()\<close>.  The index maps \<open>(sdHash, name)\<close> to
  the entry.
\<close>

datatype dirent = RegularFile nat | Directory "(string \<times> dirent) list"

record fragment =
  frag_sdHash :: string
  frag_name :: string
  frag_size :: nat
  frag_lastAccessed :: nat

definition fragment_Size :: "fragment \<Rightarrow> nat" where
  "fragment_Size fg = frag_size fg"

type_synonym cache_index = "string \<times> string \<rightharpoonup> fragment"

text \<open>
  Modelled from the spec: ``\<^verbatim>\<open>RestoreCache()\<close> walks \<^verbatim>\<open><root>/<sdHash>/*\<close>, registers each file
  as an entry with its disk size, and returns the total count'', counting ``every regular
  file under every hash directory''.  \<open>now\<close> is the time of the scan.  Reading the
  directory tree, which is a value here, cannot fail, so the error returned is nil.
\<close>

fun restore_files ::
  "nat \<Rightarrow> string \<Rightarrow> (string \<times> dirent) list \<Rightarrow> cache_index \<Rightarrow> nat \<times> cache_index" where
  "restore_files now h [] idx = (0, idx)"
| "restore_files now h ((n, RegularFile sz) # es) idx =
     (case restore_files now h es
             (idx((h, n) \<mapsto> \<lparr>frag_sdHash = h, frag_name = n, frag_size = sz,
                               frag_lastAccessed = now\<rparr>)) of
        (c, idx') \<Rightarrow> (Suc c, idx'))"
| "restore_files now h ((n, Directory sub) # es) idx = restore_files now h es idx"

fun restore_dirs ::
  "nat \<Rightarrow> (string \<times> dirent) list \<Rightarrow> cache_index \<Rightarrow> nat \<times> cache_index" where
  "restore_dirs now [] idx = (0, idx)"
| "restore_dirs now ((h, Directory es) # ds) idx =
     (case restore_files now h es idx of
        (c1, idx1) \<Rightarrow> (case restore_dirs now ds idx1 of (c2, idx2) \<Rightarrow> (c1 + c2, idx2)))"
| "restore_dirs now ((n, RegularFile sz) # ds) idx = restore_dirs now ds idx"

definition RestoreCache ::
  "nat \<Rightarrow> (string \<times> dirent) list \<Rightarrow> cache_index \<Rightarrow> (nat \<times> error option) \<times> cache_index" where
  "RestoreCache now root idx =
     (case restore_dirs now root idx of (n, idx') \<Rightarrow> ((n, None), idx'))"

text \<open>
  Modelled from the spec: ``\<^verbatim>\<open>getCachedFragment(url, sdHash, name)\<close> returns the entry and
  \<open>hit=true\<close> when the \<open>(sdHash, name)\<close> tuple is indexed''.  What happens on a miss (the
  fragment is fetched from the server) is not described there; it is the parameter
  \<open>fetch\<close>.
\<close>

definition getCachedFragment ::
  "(string \<Rightarrow> string \<Rightarrow> string \<Rightarrow> error + fragment) \<Rightarrow> cache_index \<Rightarrow> string \<Rightarrow> string \<Rightarrow> string
     \<Rightarrow> fragment option \<times> bool \<times> error option" where
  "getCachedFragment fetch idx url sdHash name =
     (case idx (sdHash, name) of
        Some fg \<Rightarrow> (Some fg, True, None)
      | None \<Rightarrow>
          (case fetch url sdHash name of
             Inl err \<Rightarrow> (None, False, Some err)
           | Inr fg \<Rightarrow> (Some fg, False, None)))"

text \<open>The entry registered for the file \<open>n\<close> of size \<open>sz\<close> in the hash directory \<open>h\<close>.\<close>

definition entry_for :: "nat \<Rightarrow> string \<Rightarrow> string \<Rightarrow> nat \<Rightarrow> fragment" where
  "entry_for now h n sz = \<lparr>frag_sdHash = h, frag_name = n, frag_size = sz, frag_lastAccessed = now\<rparr>"

text \<open>\<^verbatim>\<open>os.Stat(<root>/<sdHash>/<name>).Size()\<close> for a regular file.\<close>

definition stat_size :: "(string \<times> dirent) list \<Rightarrow> string \<Rightarrow> string \<Rightarrow> nat option" where
  "stat_size root h n =
     (case map_of root h of
        Some (Directory es) \<Rightarrow>
          (case map_of es n of Some (RegularFile sz) \<Rightarrow> Some sz | _ \<Rightarrow> None)
      | _ \<Rightarrow> None)"

text \<open>The regular files of a directory, and of all directories under the root.\<close>

fun is_regular :: "string \<times> dirent \<Rightarrow> bool" where
  "is_regular (n, RegularFile sz) = True"
| "is_regular (n, Directory sub) = False"

fun regular_files :: "string \<times> dirent \<Rightarrow> nat" where
  "regular_files (h, Directory es) = length (filter is_regular es)"
| "regular_files (n, RegularFile sz) = 0"

text \<open>In a file system the names in one directory are different.\<close>

fun distinct_names :: "string \<times> dirent \<Rightarrow> bool" where
  "distinct_names (h, Directory es) = distinct (map fst es)"
| "distinct_names (n, RegularFile sz) = True"

definition well_formed :: "(string \<times> dirent) list \<Rightarrow> bool" where
  "well_formed root = (distinct (map fst root) \<and> list_all distinct_names root)"

text \<open>
  The fixture of \<^verbatim>\<open>TestRestoreCache\<close>: ten hash directories of \<open>78 * 4 + 5\<close> files each.
\<close>

definition fixture_file :: "nat \<Rightarrow> string \<times> dirent" where
  "fixture_file j = (CHR ''f'' # replicate j (CHR ''x''), RegularFile (10000 + j))"

definition fixture_dir :: "nat \<Rightarrow> string \<times> dirent" where
  "fixture_dir i = (CHR ''d'' # replicate i (CHR ''y''), Directory (map fixture_file [0..<78 * 4 + 5]))"

definition fixture_root :: "(string \<times> dirent) list" where
  "fixture_root = map fixture_dir [0..<10]"

definition no_fetch :: "string \<Rightarrow> string \<Rightarrow> string \<Rightarrow> error + fragment" where
  "no_fetch url h n = Inl (ErrOther ''not found'')"

section \<open>Library: sequencing of Furlough and Retire\<close>

lemma Furlough_fail:
  "local_Delete q (SDHash v) (clock w) (local_bytes w) = (Some e, l', dt) \<Longrightarrow>
   Furlough q v w =
     (Some e, w\<lparr>local_bytes := l', clock := clock w + dt,
                calls := calls w @ [CallLocalDelete (SDHash v)]\<rparr>)"
  by (simp add: Furlough_def Let_def do_local_Delete_def)

lemma Furlough_ok:
  "local_Delete q (SDHash v) (clock w) (local_bytes w) = (None, l', dt) \<Longrightarrow>
   queries_UpdatePath q (entry_ctx (clock w)) (SDHash v) '''' (clock w + dt) (records w)
     = (r, d', dt') \<Longrightarrow>
   Furlough q v w =
     (r, w\<lparr>local_bytes := l', records := d', clock := clock w + dt + dt',
           calls := calls w @ [CallLocalDelete (SDHash v),
                               CallUpdatePath (entry_ctx (clock w)) (SDHash v) '''']\<rparr>)"
  by (simp add: Furlough_def Let_def do_local_Delete_def do_UpdatePath_def WithTimeout_def
      entry_ctx_def split: option.splits)

lemma Retire_fail:
  "remote_Delete q (SDHash v) (clock w) (remote_bytes w) = (Some e, r', dt) \<Longrightarrow>
   Retire q v w =
     (Some e, w\<lparr>remote_bytes := r', clock := clock w + dt,
                calls := calls w @ [CallRemoteDelete (SDHash v)]\<rparr>)"
  by (simp add: Retire_def Let_def do_remote_Delete_def)

lemma Retire_ok:
  "remote_Delete q (SDHash v) (clock w) (remote_bytes w) = (None, r', dt) \<Longrightarrow>
   queries_Delete q (entry_ctx (clock w)) (SDHash v) (clock w + dt) (records w)
     = (r, d', dt') \<Longrightarrow>
   Retire q v w =
     (r, w\<lparr>remote_bytes := r', records := d', clock := clock w + dt + dt',
           calls := calls w @ [CallRemoteDelete (SDHash v),
                               CallQueriesDelete (entry_ctx (clock w)) (SDHash v)]\<rparr>)"
  by (simp add: Retire_def Let_def do_remote_Delete_def do_queries_Delete_def WithTimeout_def
      entry_ctx_def split: option.splits)

text \<open>
  Claim C7.  \<^verbatim>\<open>Furlough(v)\<close> first calls \<^verbatim>\<open>local.Delete(v.SDHash)\<close>.  When that fails with
  \<open>e\<close>, \<^verbatim>\<open>Furlough\<close> returns \<open>e\<close>; the world is then as the driver left it: the local byte
  store is the driver's result, the deletion is the only call made, and the metadata
  records (and the remote store) are as before.  When it succeeds, \<^verbatim>\<open>Furlough\<close> calls
  \<^verbatim>\<open>queries.UpdatePath(ctx, v.SDHash, "")\<close> next, which clears \<open>localPath\<close>, on the world
  with the bytes deleted, and returns what that call returns; the local byte store is
  the one the deletion produced and the records are the ones the update produced.
  \<^verbatim>\<open>Retire(v)\<close> does the same with \<^verbatim>\<open>remote.Delete(v.SDHash)\<close> and
  \<^verbatim>\<open>queries.Delete(ctx, v.SDHash)\<close>.
\<close>

theorem C7_Furlough_Retire_short_circuit:
  "(local_Delete q (SDHash v) (clock w) (local_bytes w) = (Some e, l', dt) \<longrightarrow>
      Furlough q v w =
        (Some e, w\<lparr>local_bytes := l', clock := clock w + dt,
                   calls := calls w @ [CallLocalDelete (SDHash v)]\<rparr>)) \<and>
   (local_Delete q (SDHash v) (clock w) (local_bytes w) = (None, l', dt) \<and>
    queries_UpdatePath q (entry_ctx (clock w)) (SDHash v) '''' (clock w + dt) (records w)
      = (r, d', dt') \<longrightarrow>
      Furlough q v w =
        (r, w\<lparr>local_bytes := l', records := d', clock := clock w + dt + dt',
              calls := calls w @ [CallLocalDelete (SDHash v),
                                  CallUpdatePath (entry_ctx (clock w)) (SDHash v) '''']\<rparr>)) \<and>
   (remote_Delete q (SDHash v) (clock w) (remote_bytes w) = (Some e, r', dt) \<longrightarrow>
      Retire q v w =
        (Some e, w\<lparr>remote_bytes := r', clock := clock w + dt,
                   calls := calls w @ [CallRemoteDelete (SDHash v)]\<rparr>)) \<and>
   (remote_Delete q (SDHash v) (clock w) (remote_bytes w) = (None, r', dt) \<and>
    queries_Delete q (entry_ctx (clock w)) (SDHash v) (clock w + dt) (records w)
      = (r, d', dt') \<longrightarrow>
      Retire q v w =
        (r, w\<lparr>remote_bytes := r', records := d', clock := clock w + dt + dt',
              calls := calls w @ [CallRemoteDelete (SDHash v),
                                  CallQueriesDelete (entry_ctx (clock w)) (SDHash v)]\<rparr>))"
  using Furlough_fail [of q v w e l' dt] Furlough_ok [of q v w l' dt r d' dt']
    Retire_fail [of q v w e r' dt] Retire_ok [of q v w r' dt r d' dt']
  by blast

lemmas sample_defs = good_library_def broken_library_def slow_library_def sample_world_def
  slow_bytes_library_def timeout_library_def timing_out_Delete_def
  sample_video_def bytes_Delete_def failing_Delete_def table_UpdatePath_def table_Delete_def
  Second_def entry_ctx_def

text \<open>
  The four cases of C7 on the sample collaborators: a failing byte store leaves the bytes
  and the record of \<open>''abc''\<close> untouched; with a working one \<^verbatim>\<open>Furlough\<close> deletes the local
  bytes and clears the local path, and \<^verbatim>\<open>Retire\<close> deletes the remote bytes and the record.
\<close>

theorem C7_witness:
  "local_Delete broken_library (SDHash sample_video) (clock sample_world) (local_bytes sample_world)
     = (Some (ErrOther ''permission denied''), [''abc''], 0) \<and>
   Furlough broken_library sample_video sample_world =
     (Some (ErrOther ''permission denied''), sample_world\<lparr>calls := [CallLocalDelete ''abc'']\<rparr>) \<and>
   remote_Delete broken_library (SDHash sample_video) (clock sample_world) (remote_bytes sample_world)
     = (Some (ErrOther ''permission denied''), [''abc''], 0) \<and>
   Retire broken_library sample_video sample_world =
     (Some (ErrOther ''permission denied''), sample_world\<lparr>calls := [CallRemoteDelete ''abc'']\<rparr>) \<and>
   local_Delete good_library (SDHash sample_video) (clock sample_world) (local_bytes sample_world)
     = (None, [], 1000000) \<and>
   queries_UpdatePath good_library (entry_ctx (clock sample_world)) (SDHash sample_video) ''''
       (clock sample_world + 1000000) (records sample_world)
     = (None, [(''abc'', sample_video\<lparr>localPath := ''''\<rparr>)], 1000000) \<and>
   Furlough good_library sample_video sample_world =
     (None, sample_world\<lparr>local_bytes := [],
              records := [(''abc'', sample_video\<lparr>localPath := ''''\<rparr>)], clock := 2000000,
              calls := [CallLocalDelete ''abc'',
                        CallUpdatePath (WithDeadline Background 5000000000) ''abc'' '''']\<rparr>) \<and>
   remote_Delete good_library (SDHash sample_video) (clock sample_world) (remote_bytes sample_world)
     = (None, [], 1000000) \<and>
   queries_Delete good_library (entry_ctx (clock sample_world)) (SDHash sample_video)
       (clock sample_world + 1000000) (records sample_world)
     = (None, [], 1000000) \<and>
   Retire good_library sample_video sample_world =
     (None, sample_world\<lparr>remote_bytes := [], records := [], clock := 2000000,
              calls := [CallRemoteDelete ''abc'',
                        CallQueriesDelete (WithDeadline Background 5000000000) ''abc'']\<rparr>)"
proof -
  have b1: "local_Delete broken_library (SDHash sample_video) (clock sample_world)
      (local_bytes sample_world) = (Some (ErrOther ''permission denied''), [''abc''], 0)"
    and b2: "remote_Delete broken_library (SDHash sample_video) (clock sample_world)
      (remote_bytes sample_world) = (Some (ErrOther ''permission denied''), [''abc''], 0)"
    by (simp_all add: sample_defs)
  have g1: "local_Delete good_library (SDHash sample_video) (clock sample_world)
      (local_bytes sample_world) = (None, [], 1000000)"
    and g2: "queries_UpdatePath good_library (entry_ctx (clock sample_world)) (SDHash sample_video)
      '''' (clock sample_world + 1000000) (records sample_world)
       = (None, [(''abc'', sample_video\<lparr>localPath := ''''\<rparr>)], 1000000)"
    and g3: "remote_Delete good_library (SDHash sample_video) (clock sample_world)
      (remote_bytes sample_world) = (None, [], 1000000)"
    and g4: "queries_Delete good_library (entry_ctx (clock sample_world)) (SDHash sample_video)
       (clock sample_world + 1000000) (records sample_world) = (None, [], 1000000)"
    by (simp_all add: sample_defs)
  note broken = C7_Furlough_Retire_short_circuit
      [of broken_library sample_video sample_world "ErrOther ''permission denied''" "[''abc'']" 0
          _ _ _ "[''abc'']"]
  note good = C7_Furlough_Retire_short_circuit
      [of good_library sample_video sample_world _ "[]" 1000000 None
          "[(''abc'', sample_video\<lparr>localPath := ''''\<rparr>)]" 1000000 "[]"]
  from broken b1 have f1: "Furlough broken_library sample_video sample_world =
     (Some (ErrOther ''permission denied''),
      sample_world\<lparr>local_bytes := [''abc''], clock := clock sample_world + 0,
        calls := calls sample_world @ [CallLocalDelete (SDHash sample_video)]\<rparr>)"
    by blast
  from broken b2 have f2: "Retire broken_library sample_video sample_world =
     (Some (ErrOther ''permission denied''),
      sample_world\<lparr>remote_bytes := [''abc''], clock := clock sample_world + 0,
        calls := calls sample_world @ [CallRemoteDelete (SDHash sample_video)]\<rparr>)"
    by blast
  from good g1 g2 have f3: "Furlough good_library sample_video sample_world =
     (None, sample_world\<lparr>local_bytes := [],
        records := [(''abc'', sample_video\<lparr>localPath := ''''\<rparr>)],
        clock := clock sample_world + 1000000 + 1000000,
        calls := calls sample_world @ [CallLocalDelete (SDHash sample_video),
           CallUpdatePath (entry_ctx (clock sample_world)) (SDHash sample_video) '''']\<rparr>)"
    by blast
  have g4': "queries_Delete good_library (entry_ctx (clock sample_world)) (SDHash sample_video)
       (clock sample_world + 1000000) (records sample_world) = (None, [], 1000000)"
    by (rule g4)
  note good' = C7_Furlough_Retire_short_circuit
      [of good_library sample_video sample_world _ _ 1000000 None "[]" 1000000 "[]"]
  from good' g3 g4' have f4: "Retire good_library sample_video sample_world =
     (None, sample_world\<lparr>remote_bytes := [], records := [],
        clock := clock sample_world + 1000000 + 1000000,
        calls := calls sample_world @ [CallRemoteDelete (SDHash sample_video),
           CallQueriesDelete (entry_ctx (clock sample_world)) (SDHash sample_video)]\<rparr>)"
    by blast
  show ?thesis
    unfolding f1 f2 f3 f4 b1 b2 g1 g2 g3 g4
    by (simp add: sample_world_def sample_video_def entry_ctx_def Second_def)
qed








section \<open>Dispatcher: the actions and the tasks in flight\<close>

lemma step_cases [consumes 1, case_names Dispatch CallStop RouterTask RouterStop FwdTake FwdSend
    WorkerAdd WorkerPublish WorkerDo WorkerAck WorkerStop RouterWait]:
  assumes st: "step Do a s = Some s'"
  obtains
    (Dispatch) p where "a = ADispatch p" "length (buf (tasks s)) < cap (tasks s)"
      "s' = s\<lparr>tasks := (tasks s)\<lparr>buf := buf (tasks s) @ [p]\<rparr>\<rparr>"
  | (CallStop) "a = ACallStop" "stop_caller s = StopNotCalled" "s' = s\<lparr>stop_caller := StopSending\<rparr>"
  | (RouterTask) t ts where "a = ARouterTask" "router s = RSelect" "buf (tasks s) = t # ts"
      "s' = s\<lparr>tasks := (tasks s)\<lparr>buf := ts\<rparr>, forwarders := forwarders s @ [FTake t]\<rparr>"
  | (RouterStop) "a = ARouterStop" "router s = RSelect" "stop_caller s = StopSending"
      "s' = s\<lparr>router := next_stop s 0, stop_caller := StopReturned\<rparr>"
  | (FwdTake) k t w ws where "a = AFwdTake k" "k < length (forwarders s)"
      "forwarders s ! k = FTake t" "buf (workerPool s) = w # ws"
      "s' = s\<lparr>workerPool := (workerPool s)\<lparr>buf := ws\<rparr>,
              forwarders := (forwarders s)[k := FSend w t]\<rparr>"
  | (FwdSend) k w t where "a = AFwdSend k" "k < length (forwarders s)"
      "forwarders s ! k = FSend w t" "w < length (workers s)" "workers s ! w = WSelect"
      "s' = s\<lparr>workers := (workers s)[w := WDo t],
              forwarders := take k (forwarders s) @ drop (Suc k) (forwarders s)\<rparr>"
  | (WorkerAdd) i where "a = AWorker i" "i < length (workers s)" "workers s ! i = WAdd"
      "s' = s\<lparr>wait := (wait s)[i := wait s ! i + 1], workers := (workers s)[i := WPublish]\<rparr>"
  | (WorkerPublish) i where "a = AWorker i" "i < length (workers s)" "workers s ! i = WPublish"
      "length (buf (workerPool s)) < cap (workerPool s)"
      "s' = s\<lparr>workerPool := (workerPool s)\<lparr>buf := buf (workerPool s) @ [i]\<rparr>,
              workers := (workers s)[i := WSelect]\<rparr>"
  | (WorkerDo) i t where "a = AWorker i" "i < length (workers s)" "workers s ! i = WDo t"
      "s' = s\<lparr>wl_state := snd (Do t (wl_state s)), workers := (workers s)[i := WPublish]\<rparr>"
  | (WorkerAck) i where "a = AWorker i" "i < length (workers s)" "workers s ! i = WAck"
      "s' = s\<lparr>wait := (wait s)[i := wait s ! i - 1], workers := (workers s)[i := WExited]\<rparr>"
  | (WorkerStop) i where "a = AWorkerStop" "router s = RStop i" "i < length (workers s)"
      "workers s ! i = WSelect"
      "s' = s\<lparr>workers := (workers s)[i := WAck], router := RWait i\<rparr>"
  | (RouterWait) i where "a = ARouterWait" "router s = RWait i" "i < length (wait s)"
      "wait s ! i = 0" "s' = s\<lparr>router := next_stop s (Suc i)\<rparr>"
proof (cases a)
  case (ADispatch p)
  with st show ?thesis by (intro Dispatch [of p]) (simp_all split: if_splits)
next
  case ACallStop
  with st show ?thesis by (intro CallStop) (simp_all split: if_splits)
next
  case ARouterTask
  with st obtain t ts where "router s = RSelect" "buf (tasks s) = t # ts"
    "s' = s\<lparr>tasks := (tasks s)\<lparr>buf := ts\<rparr>, forwarders := forwarders s @ [FTake t]\<rparr>"
    by (cases "router s"; cases "buf (tasks s)") auto
  with ARouterTask show ?thesis by (intro RouterTask [of t ts]) simp_all
next
  case ARouterStop
  with st show ?thesis by (intro RouterStop) (auto split: if_splits)
next
  case (AFwdTake k)
  with st obtain t w ws where "k < length (forwarders s)" "forwarders s ! k = FTake t"
    "buf (workerPool s) = w # ws"
    "s' = s\<lparr>workerPool := (workerPool s)\<lparr>buf := ws\<rparr>,
                  forwarders := (forwarders s)[k := FSend w t]\<rparr>"
    by (cases "forwarders s ! k"; cases "buf (workerPool s)") (auto split: if_splits)
  with AFwdTake show ?thesis by (intro FwdTake [of k t w ws]) simp_all
next
  case (AFwdSend k)
  with st obtain w t where "k < length (forwarders s)" "forwarders s ! k = FSend w t"
    "w < length (workers s)" "workers s ! w = WSelect"
    "s' = s\<lparr>workers := (workers s)[w := WDo t],
                       forwarders := take k (forwarders s) @ drop (Suc k) (forwarders s)\<rparr>"
    by (auto split: if_splits fstate.splits)
  with AFwdSend show ?thesis by (intro FwdSend [of k w t]) simp_all
next
  case (AWorker i)
  with st have w: "worker_step Do i s = Some s'" by simp
  then have i: "i < length (workers s)" by (auto simp: worker_step_def split: if_splits)
  show ?thesis
  proof (cases "workers s ! i")
    case WAdd
    with w i AWorker show ?thesis by (intro WorkerAdd [of i]) (simp_all add: worker_step_def)
  next
    case WPublish
    with w i AWorker show ?thesis
      by (intro WorkerPublish [of i]) (simp_all add: worker_step_def split: if_splits)
  next
    case WSelect
    with w i show ?thesis by (simp add: worker_step_def)
  next
    case (WDo t)
    with w i AWorker show ?thesis by (intro WorkerDo [of i t]) (simp_all add: worker_step_def)
  next
    case WAck
    with w i AWorker show ?thesis by (intro WorkerAck [of i]) (simp_all add: worker_step_def)
  next
    case WExited
    with w i show ?thesis by (simp add: worker_step_def)
  qed
next
  case AWorkerStop
  with st obtain i where "router s = RStop i" "i < length (workers s)" "workers s ! i = WSelect"
    "s' = s\<lparr>workers := (workers s)[i := WAck], router := RWait i\<rparr>"
    by (auto split: if_splits rstate.splits)
  with AWorkerStop show ?thesis by (intro WorkerStop [of i]) simp_all
next
  case ARouterWait
  with st obtain i where "router s = RWait i" "i < length (wait s)" "wait s ! i = 0"
    "s' = s\<lparr>router := next_stop s (Suc i)\<rparr>"
    by (auto split: if_splits rstate.splits)
  with ARouterWait show ?thesis by (intro RouterWait [of i]) simp_all
qed

lemma in_hand_update:
  "i < length ws \<Longrightarrow>
   mset (in_hand (ws[i := w])) + mset (wtask (ws ! i)) = mset (in_hand ws) + mset (wtask w)"
proof (induction ws arbitrary: i)
  case Nil
  then show ?case by simp
next
  case (Cons x xs)
  show ?case
  proof (cases i)
    case 0
    then show ?thesis by (simp add: in_hand_def)
  next
    case (Suc j)
    with Cons.prems have "j < length xs" by simp
    from Cons.IH [OF this] Suc show ?thesis by (simp add: in_hand_def)
  qed
qed

lemma ftask_remove:
  "k < length fs \<Longrightarrow>
   mset (map ftask (take k fs @ drop (Suc k) fs)) + {#ftask (fs ! k)#} = mset (map ftask fs)"
proof -
  assume k: "k < length fs"
  have "mset (map ftask fs) = mset (map ftask (take k fs @ fs ! k # drop (Suc k) fs))"
    using id_take_nth_drop [OF k] by simp
  then show ?thesis by simp
qed

lemma ftask_update:
  "k < length fs \<Longrightarrow> ftask (fs ! k) = ftask f \<Longrightarrow> map ftask (fs[k := f]) = map ftask fs"
  by (simp add: map_update list_update_same_conv)

lemma process_snoc: "process Do wl (ps @ [t]) = snd (Do t (process Do wl ps))"
  by (simp add: process_def)

lemma accounted_step:
  assumes acc: "accounted Do wl D s ps" and st: "step Do a s = Some s'"
  shows "\<exists>ps'. accounted Do wl (D @ adispatched a) s' ps'"
  using st
proof (cases rule: step_cases)
  case (Dispatch p)
  with acc show ?thesis by (intro exI [of _ ps]) (simp add: accounted_def)
next
  case CallStop
  with acc show ?thesis by (intro exI [of _ ps]) (simp add: accounted_def)
next
  case (RouterTask t ts)
  with acc show ?thesis by (intro exI [of _ ps]) (simp add: accounted_def)
next
  case RouterStop
  with acc show ?thesis by (intro exI [of _ ps]) (simp add: accounted_def)
next
  case (FwdTake k t w ws)
  with acc show ?thesis by (intro exI [of _ ps]) (simp add: accounted_def ftask_update)
next
  case (FwdSend k w t)
  from in_hand_update [OF FwdSend(4), of "WDo t"] FwdSend(5)
  have "mset (in_hand ((workers s)[w := WDo t])) = mset (in_hand (workers s)) + {#t#}" by simp
  moreover from ftask_remove [OF FwdSend(2)] FwdSend(3)
  have "mset (map ftask (forwarders s)) =
        mset (map ftask (take k (forwarders s) @ drop (Suc k) (forwarders s))) + {#t#}" by simp
  ultimately show ?thesis
    using acc FwdSend(1,6) by (intro exI [of _ ps]) (simp add: accounted_def)
next
  case (WorkerAdd i)
  from in_hand_update [OF WorkerAdd(2), of WPublish] WorkerAdd(3)
  have "mset (in_hand ((workers s)[i := WPublish])) = mset (in_hand (workers s))" by simp
  with acc WorkerAdd(1,4) show ?thesis by (intro exI [of _ ps]) (simp add: accounted_def)
next
  case (WorkerPublish i)
  from in_hand_update [OF WorkerPublish(2), of WSelect] WorkerPublish(3)
  have "mset (in_hand ((workers s)[i := WSelect])) = mset (in_hand (workers s))" by simp
  with acc WorkerPublish(1,5) show ?thesis by (intro exI [of _ ps]) (simp add: accounted_def)
next
  case (WorkerDo i t)
  from in_hand_update [OF WorkerDo(2), of WPublish] WorkerDo(3)
  have "mset (in_hand ((workers s)[i := WPublish])) + {#t#} = mset (in_hand (workers s))" by simp
  with acc WorkerDo(1,4) show ?thesis
    by (intro exI [of _ "ps @ [t]"]) (auto simp: accounted_def process_snoc)
next
  case (WorkerAck i)
  from in_hand_update [OF WorkerAck(2), of WExited] WorkerAck(3)
  have "mset (in_hand ((workers s)[i := WExited])) = mset (in_hand (workers s))" by simp
  with acc WorkerAck(1,4) show ?thesis by (intro exI [of _ ps]) (simp add: accounted_def)
next
  case (WorkerStop i)
  from in_hand_update [OF WorkerStop(3), of WAck] WorkerStop(4)
  have "mset (in_hand ((workers s)[i := WAck])) = mset (in_hand (workers s))" by simp
  with acc WorkerStop(1,5) show ?thesis by (intro exI [of _ ps]) (simp add: accounted_def)
next
  case (RouterWait i)
  with acc show ?thesis by (intro exI [of _ ps]) (simp add: accounted_def)
qed

lemma dispatched_Cons: "dispatched (a # as) = adispatched a @ dispatched as"
  by (simp add: dispatched_def)

lemma accounted_run:
  "accounted Do wl D s ps \<Longrightarrow> run Do as s = Some s' \<Longrightarrow>
   \<exists>ps'. accounted Do wl (D @ dispatched as) s' ps'"
proof (induction as arbitrary: s D ps)
  case Nil
  then show ?case by (auto simp: dispatched_def)
next
  case (Cons a as)
  from Cons.prems obtain s1 where s1: "step Do a s = Some s1" and r: "run Do as s1 = Some s'"
    by (auto split: option.splits)
  from accounted_step [OF Cons.prems(1) s1] obtain ps1
    where "accounted Do wl (D @ adispatched a) s1 ps1" by blast
  from Cons.IH [OF this r] show ?case by (simp add: dispatched_Cons)
qed

lemma accounted_Start: "accounted Do wl [] (Start n wl) []"
  by (simp add: accounted_def Start_def make_chan_def process_def in_hand_def)

section \<open>Dispatcher: shutdown\<close>

lemma stop_inv_Start: "stop_inv (Start n wl)"
  by (simp add: stop_inv_def Start_def stopping_def counted_def)

lemma stop_inv_worker_update:
  assumes inv: "stop_inv s"
    and i: "i < length (workers s)"
    and w: "workers s' = (workers s)[i := w']"
    and c: "wait s' = (wait s)[i := counted w']"
    and r: "router s' = router s" "stop_caller s' = stop_caller s"
    and p: "stop_progress (router s) i w'"
  shows "stop_inv s'"
  unfolding stop_inv_def
proof (intro conjI allI impI)
  show "length (wait s') = length (workers s')"
    using inv by (simp add: stop_inv_def w c)
  show "router_in_range (router s') (length (workers s'))"
    using inv by (simp add: stop_inv_def w r)
  show "(stop_caller s' = StopReturned) = (router s' \<noteq> RSelect)"
    using inv by (simp add: stop_inv_def r)
next
  fix j assume j: "j < length (workers s')"
  then have j': "j < length (workers s)" by (simp add: w)
  with inv have old: "wait s ! j = counted (workers s ! j)"
    "stop_progress (router s) j (workers s ! j)" "length (wait s) = length (workers s)"
    by (simp_all add: stop_inv_def)
  show "wait s' ! j = counted (workers s' ! j)"
    using old j' i by (cases "j = i") (simp_all add: w c)
  show "stop_progress (router s') j (workers s' ! j)"
    using old j' i p by (cases "j = i") (simp_all add: w r)
qed

lemma stop_progress_running:
  "stop_progress r j w \<Longrightarrow> \<not> stopping w \<Longrightarrow> \<not> stopping w' \<Longrightarrow> stop_progress r j w'"
  by (cases r) (auto simp: stopping_def split: if_splits)

lemma stop_progress_exit:
  "stop_progress r j WAck \<Longrightarrow> stop_progress r j WExited"
  by (cases r) (auto simp: stopping_def split: if_splits)

lemma stop_inv_worker_step:
  assumes inv: "stop_inv s" and st: "worker_step Do i s = Some s'"
  shows "stop_inv s'"
proof -
  from st have i: "i < length (workers s)"
    by (auto simp: worker_step_def split: if_splits)
  with inv have old: "wait s ! i = counted (workers s ! i)"
    "stop_progress (router s) i (workers s ! i)" "length (wait s) = length (workers s)"
    by (simp_all add: stop_inv_def)
  show ?thesis
  proof (cases "workers s ! i")
    case WAdd
    with st i have s': "s' = s\<lparr>wait := (wait s)[i := wait s ! i + 1], workers := (workers s)[i := WPublish]\<rparr>"
      by (simp add: worker_step_def)
    have "stop_progress (router s) i (WPublish :: 'a wstate)"
      using old(2) WAdd by (auto intro: stop_progress_running simp: stopping_def)
    then show ?thesis
      using old WAdd by (intro stop_inv_worker_update [OF inv i]) (simp_all add: s' counted_def)
  next
    case WPublish
    with st i have s': "s' = s\<lparr>workerPool := (workerPool s)\<lparr>buf := buf (workerPool s) @ [i]\<rparr>,
                       workers := (workers s)[i := WSelect]\<rparr>"
      by (simp add: worker_step_def split: if_splits)
    have "stop_progress (router s) i (WSelect :: 'a wstate)"
      using old(2) WPublish by (auto intro: stop_progress_running simp: stopping_def)
    moreover have "(wait s)[i := 1] = wait s"
    proof -
      have "wait s ! i = 1" using old WPublish by (simp add: counted_def)
      then show ?thesis by (metis list_update_id)
    qed
    ultimately show ?thesis
      using old WPublish by (intro stop_inv_worker_update [OF inv i]) (simp_all add: s' counted_def)
  next
    case WSelect
    with st i show ?thesis by (simp add: worker_step_def)
  next
    case (WDo t)
    with st i have s': "s' = s\<lparr>wl_state := snd (Do t (wl_state s)), workers := (workers s)[i := WPublish]\<rparr>"
      by (simp add: worker_step_def)
    have "stop_progress (router s) i (WPublish :: 'a wstate)"
      using old(2) WDo by (auto intro: stop_progress_running simp: stopping_def)
    moreover have "(wait s)[i := 1] = wait s"
    proof -
      have "wait s ! i = 1" using old WDo by (simp add: counted_def)
      then show ?thesis by (metis list_update_id)
    qed
    ultimately show ?thesis
      using old WDo by (intro stop_inv_worker_update [OF inv i]) (simp_all add: s' counted_def)
  next
    case WAck
    with st i have s': "s' = s\<lparr>wait := (wait s)[i := wait s ! i - 1], workers := (workers s)[i := WExited]\<rparr>"
      by (simp add: worker_step_def)
    have "stop_progress (router s) i (WExited :: 'a wstate)"
      using old(2) WAck by (auto intro: stop_progress_exit)
    then show ?thesis
      using old WAck by (intro stop_inv_worker_update [OF inv i]) (simp_all add: s' counted_def)
  next
    case WExited
    with st i show ?thesis by (simp add: worker_step_def)
  qed
qed


lemma stop_inv_same:
  "stop_inv s \<Longrightarrow> workers s' = workers s \<Longrightarrow> wait s' = wait s \<Longrightarrow>
   router s' = router s \<Longrightarrow> stop_caller s' = stop_caller s \<Longrightarrow> stop_inv s'"
  by (simp add: stop_inv_def)

lemma stop_inv_step:
  assumes inv: "stop_inv s" and st: "step Do a s = Some s'"
  shows "stop_inv s'"
proof (cases a)
  case (ADispatch p)
  with st have "s' = s\<lparr>tasks := (tasks s)\<lparr>buf := buf (tasks s) @ [p]\<rparr>\<rparr>"
    by (simp split: if_splits)
  then show ?thesis by (intro stop_inv_same [OF inv]) simp_all
next
  case ACallStop
  with st have s': "s' = s\<lparr>stop_caller := StopSending\<rparr>" and c: "stop_caller s = StopNotCalled"
    by (simp_all split: if_splits)
  from inv c have "router s = RSelect" by (simp add: stop_inv_def)
  with inv show ?thesis by (simp add: stop_inv_def s')
next
  case ARouterTask
  with st obtain t ts where
    "s' = s\<lparr>tasks := (tasks s)\<lparr>buf := ts\<rparr>, forwarders := forwarders s @ [FTake t]\<rparr>"
    by (cases "router s"; cases "buf (tasks s)") auto
  then show ?thesis by (intro stop_inv_same [OF inv]) simp_all
next
  case ARouterStop
  with st have s': "s' = s\<lparr>router := next_stop s 0, stop_caller := StopReturned\<rparr>"
    and r: "router s = RSelect"
    by (auto split: if_splits)
  show ?thesis
  proof (cases "workers s")
    case Nil
    with inv r show ?thesis by (simp add: stop_inv_def s' next_stop_def)
  next
    case (Cons w ws)
    with inv r show ?thesis by (simp add: stop_inv_def s' next_stop_def)
  qed
next
  case (AFwdTake k)
  with st obtain t w ws where
    "s' = s\<lparr>workerPool := (workerPool s)\<lparr>buf := ws\<rparr>,
                  forwarders := (forwarders s)[k := FSend w t]\<rparr>"
    by (cases "forwarders s ! k"; cases "buf (workerPool s)") (auto split: if_splits)
  then show ?thesis by (intro stop_inv_same [OF inv]) simp_all
next
  case (AFwdSend k)
  with st obtain w t where f: "forwarders s ! k = FSend w t" and w: "w < length (workers s)"
    "workers s ! w = WSelect"
    and s': "s' = s\<lparr>workers := (workers s)[w := WDo t],
                       forwarders := take k (forwarders s) @ drop (Suc k) (forwarders s)\<rparr>"
    by (auto split: if_splits fstate.splits)
  from inv w(1) have old: "wait s ! w = counted (workers s ! w)"
    "stop_progress (router s) w (workers s ! w)"
    by (simp_all add: stop_inv_def)
  have "stop_progress (router s) w (WDo t)"
    using old(2) w by (auto intro: stop_progress_running simp: stopping_def)
  moreover have "(wait s)[w := 1] = wait s"
  proof -
    have "wait s ! w = 1" using old w by (simp add: counted_def)
    then show ?thesis by (metis list_update_id)
  qed
  ultimately show ?thesis
    by (intro stop_inv_worker_update [OF inv w(1)]) (simp_all add: s' counted_def)
next
  case (AWorker i)
  with st inv show ?thesis by (auto intro: stop_inv_worker_step)
next
  case AWorkerStop
  with st obtain i where r: "router s = RStop i" and i: "i < length (workers s)"
    "workers s ! i = WSelect"
    and s': "s' = s\<lparr>workers := (workers s)[i := WAck], router := RWait i\<rparr>"
    by (auto split: if_splits rstate.splits)
  show ?thesis
    unfolding stop_inv_def
  proof (intro conjI allI impI)
    show "length (wait s') = length (workers s')"
      using inv by (simp add: stop_inv_def s')
    show "router_in_range (router s') (length (workers s'))"
      using i by (simp add: s')
    show "(stop_caller s' = StopReturned) = (router s' \<noteq> RSelect)"
      using inv r by (simp add: stop_inv_def s')
  next
    fix j assume "j < length (workers s')"
    then have j: "j < length (workers s)" by (simp add: s')
    with inv have old: "wait s ! j = counted (workers s ! j)"
      "stop_progress (router s) j (workers s ! j)"
      by (simp_all add: stop_inv_def)
    show "wait s' ! j = counted (workers s' ! j)"
      using old j i by (cases "j = i") (simp_all add: s' counted_def)
    show "stop_progress (router s') j (workers s' ! j)"
      using old j i r by (cases "j = i") (auto simp: s' stopping_def split: if_splits)
  qed
next
  case ARouterWait
  with st obtain i where r: "router s = RWait i" and i: "i < length (wait s)" "wait s ! i = 0"
    and s': "s' = s\<lparr>router := next_stop s (Suc i)\<rparr>"
    by (auto split: if_splits rstate.splits)
  from inv i have len: "length (wait s) = length (workers s)" by (simp add: stop_inv_def)
  from inv i(1) len have old_i: "wait s ! i = counted (workers s ! i)"
    "stop_progress (router s) i (workers s ! i)"
    by (simp_all add: stop_inv_def)
  from old_i(1) i(2) have "workers s ! i = WAdd \<or> workers s ! i = WExited"
    by (simp add: counted_def split: if_splits)
  moreover from old_i(2) r have "stopping (workers s ! i)" by simp
  ultimately have wi: "workers s ! i = WExited" by (auto simp: stopping_def)
  show ?thesis
    unfolding stop_inv_def
  proof (intro conjI allI impI)
    show "length (wait s') = length (workers s')"
      using len by (simp add: s')
    show "router_in_range (router s') (length (workers s'))"
      by (simp add: s' next_stop_def)
    show "(stop_caller s' = StopReturned) = (router s' \<noteq> RSelect)"
      using inv r by (simp add: stop_inv_def s' next_stop_def)
  next
    fix j assume "j < length (workers s')"
    then have j: "j < length (workers s)" by (simp add: s')
    with inv have old: "wait s ! j = counted (workers s ! j)"
      "stop_progress (router s) j (workers s ! j)"
      by (simp_all add: stop_inv_def)
    show "wait s' ! j = counted (workers s' ! j)"
      using old by (simp add: s')
    show "stop_progress (router s') j (workers s' ! j)"
    proof (cases "Suc i < length (workers s)")
      case True
      then show ?thesis
        using old(2) r wi by (cases "j = i") (auto simp: s' next_stop_def split: if_splits)
    next
      case False
      with j have "j \<le> i" by simp
      then show ?thesis
        using old(2) r wi False by (cases "j = i") (auto simp: s' next_stop_def split: if_splits)
    qed
  qed
qed

lemma stop_inv_run:
  "stop_inv s \<Longrightarrow> run Do as s = Some s' \<Longrightarrow> stop_inv s'"
proof (induction as arbitrary: s)
  case Nil
  then show ?case by simp
next
  case (Cons a as)
  then show ?case by (auto split: option.splits dest: stop_inv_step)
qed

text \<open>
  Claim C5, as the code has it.  \<^verbatim>\<open>Dispatcher.Stop\<close> consists of the send on the unbuffered
  \<^verbatim>\<open>d.stopChan\<close> alone, so in every reachable state it has returned exactly when the routing
  goroutine has taken the stop signal and left its \<^verbatim>\<open>select\<close>, where it accepted tasks.
  The workers are stopped afterwards by the routing goroutine, in order:
  \<^item> as long as the routing goroutine is in its \<^verbatim>\<open>select\<close>, no worker has received stop;
  \<^item> while it is about to send stop to worker \<open>i\<close>, the workers before \<open>i\<close> have exited and
    no other worker has received stop;
  \<^item> while it waits for worker \<open>i\<close>, that worker has received stop, the workers before it
    have exited and the workers after it have not received stop;
  \<^item> it returns only when every worker has exited and every wait-group counter is back
    to zero.
  A worker receives stop only in its \<^verbatim>\<open>select\<close>, where it holds no task, and no task is
  dropped on the way: every dispatched task is, at every moment, in the intake buffer,
  with a hand-over goroutine, in the hands of a worker, or among the tasks that \<^verbatim>\<open>Do\<close> has
  been run on.  So when the routing goroutine returns, no worker holds a task: each task
  that reached a worker has been passed to \<^verbatim>\<open>Do\<close>.
\<close>

theorem Stop_returns_at_handoff:
  assumes "run Do as (Start n wl) = Some s"
  shows "(stop_caller s = StopReturned \<longleftrightarrow> router s \<noteq> RSelect) \<and>
         (\<forall>i j. (router s = RStop i \<or> router s = RWait i) \<and> j < i \<longrightarrow> workers s ! j = WExited) \<and>
         (router s = RReturned \<longrightarrow>
            (\<forall>w \<in> set (workers s). w = WExited) \<and> (\<forall>c \<in> set (wait s). c = 0)) \<and>
         (router s = RSelect \<longrightarrow> (\<forall>w \<in> set (workers s). w \<noteq> WAck \<and> w \<noteq> WExited)) \<and>
         (\<forall>i. router s = RStop i \<longrightarrow>
            i < length (workers s) \<and>
            (\<forall>j < length (workers s). i \<le> j \<longrightarrow>
               workers s ! j \<noteq> WAck \<and> workers s ! j \<noteq> WExited)) \<and>
         (\<forall>i. router s = RWait i \<longrightarrow>
            i < length (workers s) \<and>
            (workers s ! i = WAck \<or> workers s ! i = WExited) \<and>
            (\<forall>j < length (workers s). i < j \<longrightarrow>
               workers s ! j \<noteq> WAck \<and> workers s ! j \<noteq> WExited)) \<and>
         (\<exists>ps. wl_state s = process Do wl ps \<and>
               mset (dispatched as) =
                 mset (buf (tasks s)) + mset (map ftask (forwarders s)) +
                 mset (in_hand (workers s)) + mset ps) \<and>
         (router s = RReturned \<longrightarrow> in_hand (workers s) = [])"
proof -
  have inv: "stop_inv s" using stop_inv_run [OF stop_inv_Start assms] .
  have prog: "stop_progress (router s) j (workers s ! j)" if "j < length (workers s)" for j
    using inv that by (simp add: stop_inv_def)
  have range: "router_in_range (router s) (length (workers s))"
    using inv by (simp add: stop_inv_def)
  have c1: "stop_caller s = StopReturned \<longleftrightarrow> router s \<noteq> RSelect"
    using inv by (simp add: stop_inv_def)
  have c2: "\<forall>i j. (router s = RStop i \<or> router s = RWait i) \<and> j < i \<longrightarrow> workers s ! j = WExited"
  proof (intro allI impI)
    fix i j assume a: "(router s = RStop i \<or> router s = RWait i) \<and> j < i"
    with range have "j < length (workers s)" by auto
    from prog [OF this] a show "workers s ! j = WExited" by auto
  qed
  have exited: "\<forall>w \<in> set (workers s). w = WExited" if "router s = RReturned"
    using inv that by (auto simp: stop_inv_def in_set_conv_nth)
  have zero: "\<forall>c \<in> set (wait s). c = 0" if "router s = RReturned"
    using inv that by (auto simp: stop_inv_def in_set_conv_nth counted_def)
  have c3: "router s = RReturned \<longrightarrow>
            (\<forall>w \<in> set (workers s). w = WExited) \<and> (\<forall>c \<in> set (wait s). c = 0)"
    using exited zero by (intro impI conjI)
  have c4: "router s = RSelect \<longrightarrow> (\<forall>w \<in> set (workers s). w \<noteq> WAck \<and> w \<noteq> WExited)"
  proof (intro impI ballI)
    fix w assume r: "router s = RSelect" and "w \<in> set (workers s)"
    then obtain j where j: "j < length (workers s)" and w: "w = workers s ! j"
      by (auto simp: in_set_conv_nth)
    from prog [OF j] r w show "w \<noteq> WAck \<and> w \<noteq> WExited" by (auto simp: stopping_def)
  qed
  have c5: "\<forall>i. router s = RStop i \<longrightarrow>
            i < length (workers s) \<and>
            (\<forall>j < length (workers s). i \<le> j \<longrightarrow>
               workers s ! j \<noteq> WAck \<and> workers s ! j \<noteq> WExited)"
  proof (intro conjI allI impI)
    fix i assume r: "router s = RStop i"
    with range show "i < length (workers s)" by simp
    fix j assume j: "j < length (workers s)" and ij: "i \<le> j"
    from prog [OF j] r ij have "\<not> stopping (workers s ! j)" by simp
    then show "workers s ! j \<noteq> WAck" "workers s ! j \<noteq> WExited" by (simp_all add: stopping_def)
  qed
  have c6: "\<forall>i. router s = RWait i \<longrightarrow>
            i < length (workers s) \<and>
            (workers s ! i = WAck \<or> workers s ! i = WExited) \<and>
            (\<forall>j < length (workers s). i < j \<longrightarrow>
               workers s ! j \<noteq> WAck \<and> workers s ! j \<noteq> WExited)"
  proof (intro conjI allI impI)
    fix i assume r: "router s = RWait i"
    with range show i: "i < length (workers s)" by simp
    from prog [OF i] r show "workers s ! i = WAck \<or> workers s ! i = WExited"
      by (simp add: stopping_def)
    fix j assume j: "j < length (workers s)" and ij: "i < j"
    from prog [OF j] r ij have "\<not> stopping (workers s ! j)" by simp
    then show "workers s ! j \<noteq> WAck" "workers s ! j \<noteq> WExited" by (simp_all add: stopping_def)
  qed
  have c7: "\<exists>ps. wl_state s = process Do wl ps \<and>
               mset (dispatched as) =
                 mset (buf (tasks s)) + mset (map ftask (forwarders s)) +
                 mset (in_hand (workers s)) + mset ps"
    using accounted_run [OF accounted_Start assms] by (simp add: accounted_def)
  have c8: "router s = RReturned \<longrightarrow> in_hand (workers s) = []"
  proof
    assume "router s = RReturned"
    from exited [OF this] have "\<forall>w \<in> set (workers s). wtask w = []" by auto
    then show "in_hand (workers s) = []" by (simp add: in_hand_def)
  qed
  show ?thesis
    by (intro conjI) (rule c1 c2 c3 c4 c5 c6 c7 c8)+
qed

lemma run_stop_complete:
  "run testWorkload_Do stop_complete one_worker =
     Some \<lparr>workerPool = \<lparr>buf = [0], cap = 200\<rparr>, tasks = \<lparr>buf = [], cap = 2000\<rparr>,
           workers = [WExited], wait = [0], router = RReturned, forwarders = [],
           stop_caller = StopReturned,
           wl_state = \<lparr>doCalled = 1, seenTasks = [''urlhash'']\<rparr>\<rparr>"
  by (simp add: stop_complete_def until_task_received_def one_worker_def Start_def make_chan_def
      worker_step_def next_stop_def testWorkload_Do_def new_testWorkload_def sample_payload_def)

lemma run_stop_first_worker:
  "run testWorkload_Do stop_first_worker two_workers =
     Some \<lparr>workerPool = \<lparr>buf = [0, 1], cap = 200\<rparr>, tasks = \<lparr>buf = [], cap = 2000\<rparr>,
           workers = [WExited, WSelect], wait = [0, 1], router = RStop 1, forwarders = [],
           stop_caller = StopReturned,
           wl_state = \<lparr>doCalled = 0, seenTasks = []\<rparr>\<rparr>"
  by (simp add: stop_first_worker_def two_workers_def Start_def make_chan_def
      worker_step_def next_stop_def new_testWorkload_def numeral_2_eq_2)

text \<open>
  A complete shutdown of the one-worker pool: the worker handles one task, stop is
  called, handed to the worker and acknowledged.  And a shutdown of the two-worker pool
  half way: the routing goroutine is about to stop the second worker, the first has
  exited.
\<close>

theorem Stop_returns_at_handoff_witness:
  "run testWorkload_Do stop_complete one_worker \<noteq> None \<and>
   stop_caller (the (run testWorkload_Do stop_complete one_worker)) = StopReturned \<and>
   router (the (run testWorkload_Do stop_complete one_worker)) = RReturned \<and>
   workers (the (run testWorkload_Do stop_complete one_worker)) = [WExited] \<and>
   wait (the (run testWorkload_Do stop_complete one_worker)) = [0] \<and>
   in_hand (workers (the (run testWorkload_Do stop_complete one_worker))) = [] \<and>
   dispatched stop_complete = [sample_payload] \<and>
   wl_state (the (run testWorkload_Do stop_complete one_worker)) =
     process testWorkload_Do new_testWorkload [sample_payload] \<and>
   run testWorkload_Do stop_first_worker two_workers \<noteq> None \<and>
   router (the (run testWorkload_Do stop_first_worker two_workers)) = RStop 1 \<and>
   workers (the (run testWorkload_Do stop_first_worker two_workers)) ! 0 = WExited"
proof -
  have d: "dispatched stop_complete = [sample_payload]"
    by (simp add: dispatched_def stop_complete_def until_task_received_def)
  have p: "process testWorkload_Do new_testWorkload [sample_payload] =
           \<lparr>doCalled = 1, seenTasks = [''urlhash'']\<rparr>"
    by (simp add: process_def testWorkload_Do_def new_testWorkload_def sample_payload_def)
  from Stop_returns_at_handoff [OF run_stop_complete [unfolded one_worker_def]]
  have "router (the (run testWorkload_Do stop_complete one_worker)) = RReturned \<longrightarrow>
        in_hand (workers (the (run testWorkload_Do stop_complete one_worker))) = []"
    by (simp add: run_stop_complete)
  moreover
  from Stop_returns_at_handoff [OF run_stop_first_worker [unfolded two_workers_def]]
  have "\<forall>i j. (router (the (run testWorkload_Do stop_first_worker two_workers)) = RStop i \<or>
               router (the (run testWorkload_Do stop_first_worker two_workers)) = RWait i) \<and> j < i
          \<longrightarrow> workers (the (run testWorkload_Do stop_first_worker two_workers)) ! j = WExited"
    by (simp add: run_stop_first_worker)
  ultimately show ?thesis
    by (simp add: run_stop_complete run_stop_first_worker d p)
qed

text \<open>
  C5 as stated fails: in the one-worker pool, \<^verbatim>\<open>Stop\<close> is called while the worker holds a
  task it has not yet passed to \<^verbatim>\<open>workload.Do\<close>.  Once the routing goroutine has taken the
  stop signal, \<^verbatim>\<open>Stop\<close> has returned; the worker has neither finished its task (\<open>doCalled\<close>
  is still 0) nor been sent stop, let alone acknowledged it.
\<close>

theorem Stop_before_workers_counterexample:
  "run testWorkload_Do stop_early one_worker \<noteq> None \<and>
   stop_caller (the (run testWorkload_Do stop_early one_worker)) = StopReturned \<and>
   router (the (run testWorkload_Do stop_early one_worker)) = RStop 0 \<and>
   workers (the (run testWorkload_Do stop_early one_worker)) = [WDo sample_payload] \<and>
   wait (the (run testWorkload_Do stop_early one_worker)) = [1] \<and>
   doCalled (wl_state (the (run testWorkload_Do stop_early one_worker))) = 0"
  by (simp add: stop_early_def until_task_received_def one_worker_def Start_def make_chan_def
      worker_step_def next_stop_def testWorkload_Do_def new_testWorkload_def)

section \<open>Dispatcher: capacity of the free-worker registry\<close>

lemma held_append: "held (xs @ ys) = held xs @ held ys"
  by (induction xs rule: held.induct) simp_all

lemma held_nth_FTake:
  "k < length fs \<Longrightarrow> fs ! k = FTake t \<Longrightarrow> held fs = held (take k fs) @ held (drop (Suc k) fs)"
proof -
  assume k: "k < length fs" and f: "fs ! k = FTake t"
  have "fs = take k fs @ FTake t # drop (Suc k) fs"
    using id_take_nth_drop [OF k] f by simp
  then have "held fs = held (take k fs @ FTake t # drop (Suc k) fs)" by simp
  then show ?thesis by (simp add: held_append)
qed

lemma held_nth_FSend:
  "k < length fs \<Longrightarrow> fs ! k = FSend w t \<Longrightarrow> held fs = held (take k fs) @ w # held (drop (Suc k) fs)"
proof -
  assume k: "k < length fs" and f: "fs ! k = FSend w t"
  have "fs = take k fs @ FSend w t # drop (Suc k) fs"
    using id_take_nth_drop [OF k] f by simp
  then have "held fs = held (take k fs @ FSend w t # drop (Suc k) fs)" by simp
  then show ?thesis by (simp add: held_append)
qed

lemma held_update_FSend:
  "k < length fs \<Longrightarrow> held (fs[k := FSend w t]) = held (take k fs) @ w # held (drop (Suc k) fs)"
  by (simp add: upd_conv_take_nth_drop held_append)

lemma pool_inv_Start: "pool_inv (Start n wl)"
  by (simp add: pool_inv_def published_def Start_def make_chan_def)

lemma pool_inv_same:
  "pool_inv s \<Longrightarrow> published s' = published s \<Longrightarrow> workers s' = workers s \<Longrightarrow> pool_inv s'"
  by (simp add: pool_inv_def)

lemma pool_inv_worker_update:
  assumes inv: "pool_inv s"
    and p: "published s' = published s"
    and w: "workers s' = (workers s)[i := w']"
    and ok: "parked w' \<or> \<not> parked (workers s ! i)"
  shows "pool_inv s'"
  unfolding pool_inv_def
proof (intro conjI ballI)
  show "distinct (published s')" using inv by (simp add: pool_inv_def p)
next
  fix j assume "j \<in> set (published s')"
  then have j: "j \<in> set (published s)" by (simp add: p)
  with inv have old: "j < length (workers s)" "parked (workers s ! j)"
    by (simp_all add: pool_inv_def)
  show "j < length (workers s')" using old by (simp add: w)
  show "parked (workers s' ! j)"
    using old ok by (cases "j = i") (auto simp: w)
qed

lemma pool_inv_worker_step:
  assumes inv: "pool_inv s" and st: "worker_step Do i s = Some s'"
  shows "pool_inv s'"
proof -
  from st have i: "i < length (workers s)"
    by (auto simp: worker_step_def split: if_splits)
  show ?thesis
  proof (cases "workers s ! i")
    case WAdd
    with st i have "s' = s\<lparr>wait := (wait s)[i := wait s ! i + 1], workers := (workers s)[i := WPublish]\<rparr>"
      by (simp add: worker_step_def)
    then show ?thesis
      using WAdd by (intro pool_inv_worker_update [OF inv, of _ i WPublish]) (simp_all add: published_def parked_def)
  next
    case WPublish
    with st i have s': "s' = s\<lparr>workerPool := (workerPool s)\<lparr>buf := buf (workerPool s) @ [i]\<rparr>,
                       workers := (workers s)[i := WSelect]\<rparr>"
      by (simp add: worker_step_def split: if_splits)
    have notin: "i \<notin> set (published s)"
      using inv WPublish by (auto simp: pool_inv_def parked_def)
    show ?thesis
      unfolding pool_inv_def
    proof (intro conjI ballI)
      show "distinct (published s')"
        using inv notin by (auto simp: pool_inv_def published_def s')
    next
      fix j assume j: "j \<in> set (published s')"
      show "j < length (workers s')"
        using j inv i by (auto simp: pool_inv_def published_def s')
      show "parked (workers s' ! j)"
      proof (cases "j = i")
        case True
        then show ?thesis using i by (simp add: s' parked_def)
      next
        case False
        with j have "j \<in> set (published s)" by (auto simp: published_def s')
        with inv False show ?thesis by (simp add: pool_inv_def s')
      qed
    qed
  next
    case WSelect
    with st i show ?thesis by (simp add: worker_step_def)
  next
    case (WDo t)
    with st i have "s' = s\<lparr>wl_state := snd (Do t (wl_state s)), workers := (workers s)[i := WPublish]\<rparr>"
      by (simp add: worker_step_def)
    then show ?thesis
      using WDo by (intro pool_inv_worker_update [OF inv, of _ i WPublish]) (simp_all add: published_def parked_def)
  next
    case WAck
    with st i have "s' = s\<lparr>wait := (wait s)[i := wait s ! i - 1], workers := (workers s)[i := WExited]\<rparr>"
      by (simp add: worker_step_def)
    then show ?thesis
      by (intro pool_inv_worker_update [OF inv, of _ i WExited]) (simp_all add: published_def parked_def)
  next
    case WExited
    with st i show ?thesis by (simp add: worker_step_def)
  qed
qed

lemma pool_inv_step:
  assumes inv: "pool_inv s" and st: "step Do a s = Some s'"
  shows "pool_inv s'"
proof (cases a)
  case (ADispatch p)
  with st have "s' = s\<lparr>tasks := (tasks s)\<lparr>buf := buf (tasks s) @ [p]\<rparr>\<rparr>"
    by (simp split: if_splits)
  then show ?thesis by (intro pool_inv_same [OF inv]) (simp_all add: published_def)
next
  case ACallStop
  with st have "s' = s\<lparr>stop_caller := StopSending\<rparr>"
    by (simp_all split: if_splits)
  then show ?thesis by (intro pool_inv_same [OF inv]) (simp_all add: published_def)
next
  case ARouterTask
  with st obtain t ts where
    "s' = s\<lparr>tasks := (tasks s)\<lparr>buf := ts\<rparr>, forwarders := forwarders s @ [FTake t]\<rparr>"
    by (cases "router s"; cases "buf (tasks s)") auto
  then show ?thesis by (intro pool_inv_same [OF inv]) (simp_all add: published_def held_append)
next
  case ARouterStop
  with st have "s' = s\<lparr>router := next_stop s 0, stop_caller := StopReturned\<rparr>"
    by (auto split: if_splits)
  then show ?thesis by (intro pool_inv_same [OF inv]) (simp_all add: published_def)
next
  case (AFwdTake k)
  with st obtain t w ws where k: "k < length (forwarders s)" and f: "forwarders s ! k = FTake t"
    and b: "buf (workerPool s) = w # ws"
    and s': "s' = s\<lparr>workerPool := (workerPool s)\<lparr>buf := ws\<rparr>,
                  forwarders := (forwarders s)[k := FSend w t]\<rparr>"
    by (cases "forwarders s ! k"; cases "buf (workerPool s)") (auto split: if_splits)
  have old: "published s = w # ws @ held (take k (forwarders s)) @ held (drop (Suc k) (forwarders s))"
    using held_nth_FTake [OF k f] b by (simp add: published_def)
  have new: "published s' = ws @ held (take k (forwarders s)) @ w # held (drop (Suc k) (forwarders s))"
    using held_update_FSend [OF k] by (simp add: published_def s')
  have "distinct (published s') \<and> set (published s') = set (published s)"
    using inv unfolding old new pool_inv_def by auto
  with inv show ?thesis by (simp add: pool_inv_def s')
next
  case (AFwdSend k)
  with st obtain w t where k: "k < length (forwarders s)" and f: "forwarders s ! k = FSend w t"
    and w: "w < length (workers s)" "workers s ! w = WSelect"
    and s': "s' = s\<lparr>workers := (workers s)[w := WDo t],
                       forwarders := take k (forwarders s) @ drop (Suc k) (forwarders s)\<rparr>"
    by (auto split: if_splits fstate.splits)
  have old: "published s = buf (workerPool s) @ held (take k (forwarders s)) @ w # held (drop (Suc k) (forwarders s))"
    using held_nth_FSend [OF k f] by (simp add: published_def)
  have new: "published s' = buf (workerPool s) @ held (take k (forwarders s)) @ held (drop (Suc k) (forwarders s))"
    by (simp add: published_def s' held_append)
  have d: "distinct (published s')" and sub: "set (published s') \<subseteq> set (published s)"
    and notin: "w \<notin> set (published s')"
    using inv unfolding old new pool_inv_def by auto
  show ?thesis
    unfolding pool_inv_def
  proof (intro conjI ballI)
    show "distinct (published s')" by (rule d)
  next
    fix j assume j: "j \<in> set (published s')"
    with sub have "j \<in> set (published s)" by blast
    with inv have o: "j < length (workers s)" "parked (workers s ! j)" by (simp_all add: pool_inv_def)
    from j notin have "j \<noteq> w" by blast
    with o show "j < length (workers s')" "parked (workers s' ! j)" by (simp_all add: s')
  qed
next
  case (AWorker i)
  with st inv show ?thesis by (auto intro: pool_inv_worker_step)
next
  case AWorkerStop
  with st obtain i where "i < length (workers s)" "workers s ! i = WSelect"
    and "s' = s\<lparr>workers := (workers s)[i := WAck], router := RWait i\<rparr>"
    by (auto split: if_splits rstate.splits)
  then show ?thesis
    by (intro pool_inv_worker_update [OF inv, of _ i WAck]) (simp_all add: published_def parked_def)
next
  case ARouterWait
  with st obtain i where "s' = s\<lparr>router := next_stop s (Suc i)\<rparr>"
    by (auto split: if_splits rstate.splits)
  then show ?thesis by (intro pool_inv_same [OF inv]) (simp_all add: published_def)
qed

lemma shape_step:
  assumes st: "step Do a s = Some s'"
  shows "cap (workerPool s') = cap (workerPool s) \<and> length (workers s') = length (workers s)"
proof (cases a)
  case (ADispatch p)
  with st show ?thesis by (auto split: if_splits)
next
  case ACallStop
  with st show ?thesis by (auto split: if_splits)
next
  case ARouterTask
  with st show ?thesis by (cases "router s"; cases "buf (tasks s)") auto
next
  case ARouterStop
  with st show ?thesis by (auto split: if_splits)
next
  case (AFwdTake k)
  with st show ?thesis
    by (cases "forwarders s ! k"; cases "buf (workerPool s)") (auto split: if_splits)
next
  case (AFwdSend k)
  with st show ?thesis by (auto split: if_splits fstate.splits)
next
  case (AWorker i)
  with st show ?thesis
    by (cases "workers s ! i") (auto simp: worker_step_def split: if_splits)
next
  case AWorkerStop
  with st show ?thesis by (auto split: if_splits rstate.splits)
next
  case ARouterWait
  with st show ?thesis by (auto split: if_splits rstate.splits)
qed

lemma run_invs:
  "pool_inv s \<Longrightarrow> run Do as s = Some s' \<Longrightarrow>
     pool_inv s' \<and> cap (workerPool s') = cap (workerPool s) \<and> length (workers s') = length (workers s)"
proof (induction as arbitrary: s)
  case Nil
  then show ?case by simp
next
  case (Cons a as)
  from Cons.prems obtain s1 where s1: "step Do a s = Some s1" and r: "run Do as s1 = Some s'"
    by (auto split: option.splits)
  from pool_inv_step [OF Cons.prems(1) s1] have "pool_inv s1" .
  from Cons.IH [OF this r] shape_step [OF s1] show ?case by simp
qed

lemma publish_room:
  assumes inv: "pool_inv s" and i: "i < length (workers s)" and w: "workers s ! i = WPublish"
  shows "length (buf (workerPool s)) < length (workers s)"
proof -
  have d: "distinct (buf (workerPool s))"
    using inv by (simp add: pool_inv_def published_def)
  have "set (buf (workerPool s)) \<subseteq> {..<length (workers s)} - {i}"
  proof
    fix j assume "j \<in> set (buf (workerPool s))"
    then have "j \<in> set (published s)" by (simp add: published_def)
    with inv have "j < length (workers s)" "parked (workers s ! j)" by (simp_all add: pool_inv_def)
    with w show "j \<in> {..<length (workers s)} - {i}" by (auto simp: parked_def)
  qed
  then have "card (set (buf (workerPool s))) \<le> card ({..<length (workers s)} - {i})"
    by (intro card_mono) simp_all
  also have "\<dots> = length (workers s) - 1" using i by simp
  finally show ?thesis using d i by (simp add: distinct_card)
qed

text \<open>
  Claim C6, as the code has it.  \<^verbatim>\<open>Start\<close> creates the registry with
  \<^verbatim>\<open>make(chan chan Task, 200)\<close>: its capacity is 200 whatever the worker count.  That is at
  least \<open>N\<close> when \<open>N \<le> 200\<close>, and then no worker ever blocks on publishing its task
  channel: in every reachable state, a worker that stands before \<^verbatim>\<open>w.pool <- w.tasks\<close> can
  execute it.
\<close>

theorem workerPool_capacity_200:
  fixes Do :: "'p \<Rightarrow> 'ws \<Rightarrow> error option \<times> 'ws"
  shows
  "cap (workerPool (Start n wl :: ('p, 'ws) dispatcher)) = 200 \<and>
   (n \<le> 200 \<longrightarrow> n \<le> int (cap (workerPool (Start n wl :: ('p, 'ws) dispatcher)))) \<and>
   (n \<le> 200 \<and> run Do as (Start n wl) = Some s \<and> i < length (workers s) \<and> workers s ! i = WPublish
      \<longrightarrow> step Do (AWorker i) s \<noteq> None)"
proof (intro conjI impI)
  show c: "cap (workerPool (Start n wl :: ('p, 'ws) dispatcher)) = 200"
    by (simp add: Start_def make_chan_def)
  show "n \<le> int (cap (workerPool (Start n wl :: ('p, 'ws) dispatcher)))" if "n \<le> 200"
    using that by (simp add: Start_def make_chan_def)
  assume a: "n \<le> 200 \<and> run Do as (Start n wl) = Some s \<and> i < length (workers s) \<and> workers s ! i = WPublish"
  from run_invs [OF pool_inv_Start, of Do as n wl s] a
  have inv: "pool_inv s" and cp: "cap (workerPool s) = 200" and len: "length (workers s) = nat n"
    by (simp_all add: Start_def make_chan_def)
  from a have i: "i < length (workers s)" and w: "workers s ! i = WPublish" by simp_all
  from publish_room [OF inv i w] have "length (buf (workerPool s)) < length (workers s)" .
  moreover from a have "nat n \<le> 200" by linarith
  ultimately have "length (buf (workerPool s)) < cap (workerPool s)" using len cp by linarith
  with a show "step Do (AWorker i) s \<noteq> None"
    by (simp add: worker_step_def)
qed

text \<open>
  In the one-worker pool, after \<^verbatim>\<open>Add(1)\<close> the worker publishes its channel at once.
\<close>

theorem workerPool_capacity_200_witness:
  "(1::int) \<le> 200 \<and> (1::int) \<le> int (cap (workerPool one_worker)) \<and>
   run testWorkload_Do [AWorker 0] one_worker \<noteq> None \<and>
   workers (the (run testWorkload_Do [AWorker 0] one_worker)) ! 0 = WPublish \<and>
   step testWorkload_Do (AWorker 0) (the (run testWorkload_Do [AWorker 0] one_worker)) \<noteq> None"
proof -
  show ?thesis
    using workerPool_capacity_200 [of 1 new_testWorkload testWorkload_Do "[AWorker 0]"
        "(Start 1 new_testWorkload)\<lparr>wait := [1], workers := [WPublish]\<rparr>" 0]
    by (simp add: one_worker_def Start_def worker_step_def make_chan_def)
qed

text \<open>
  C6 as stated fails for 201 workers: the registry still has capacity 200.
\<close>

theorem workerPool_capacity_counterexample:
  "\<not> (201 \<le> int (cap (workerPool
     (Start 201 new_testWorkload :: (string \<times> string, testWorkload) dispatcher))))"
  by (simp add: Start_def make_chan_def)

section \<open>Dispatcher: draining the dispatched tasks\<close>

lemma no_stop_step:
  assumes "no_stop s" and "a \<noteq> ACallStop" and st: "step Do a s = Some s'"
  shows "no_stop s'"
  using st assms(1,2) by (cases rule: step_cases) (simp_all add: no_stop_def)

lemma sum_list_map_update:
  fixes f :: "'a \<Rightarrow> nat"
  shows "i < length xs \<Longrightarrow>
     sum_list (map f (xs[i := y])) + f (xs ! i) = sum_list (map f xs) + f y"
proof (induction xs arbitrary: i)
  case Nil
  then show ?case by simp
next
  case (Cons x xs)
  show ?case
  proof (cases i)
    case 0
    then show ?thesis by simp
  next
    case (Suc j)
    with Cons.prems have "j < length xs" by simp
    from Cons.IH [OF this] Suc show ?thesis by simp
  qed
qed

lemma sum_list_map_remove:
  fixes f :: "'a \<Rightarrow> nat"
  assumes k: "k < length xs"
  shows "sum_list (map f (take k xs @ drop (Suc k) xs)) + f (xs ! k) = sum_list (map f xs)"
proof -
  have "sum_list (map f xs) = sum_list (map f (take k xs @ xs ! k # drop (Suc k) xs))"
    using id_take_nth_drop [OF k] by simp
  then show ?thesis by simp
qed

lemma work_left_step:
  assumes ns: "no_stop s" and a: "a \<noteq> ACallStop" and st: "step Do a s = Some s'"
  shows "work_left s' + (if internal a then 1 else 0) = work_left s + 5 * length (adispatched a)"
  using st
proof (cases rule: step_cases)
  case (Dispatch p)
  then show ?thesis by (simp add: work_left_def)
next
  case CallStop
  with a show ?thesis by simp
next
  case (RouterTask t ts)
  then show ?thesis by (simp add: work_left_def)
next
  case RouterStop
  with ns show ?thesis by (simp add: no_stop_def)
next
  case (FwdTake k t w ws)
  from sum_list_map_update [OF FwdTake(2), of fcost "FSend w t"] FwdTake(3)
  have "sum_list (map fcost ((forwarders s)[k := FSend w t])) + 1 =
        sum_list (map fcost (forwarders s))" by simp
  with FwdTake(1,5) show ?thesis by (simp add: work_left_def)
next
  case (FwdSend k w t)
  from sum_list_map_update [OF FwdSend(4), of wcost "WDo t"] FwdSend(5)
  have "sum_list (map wcost ((workers s)[w := WDo t])) = sum_list (map wcost (workers s)) + 2"
    by simp
  moreover from sum_list_map_remove [OF FwdSend(2), of fcost] FwdSend(3)
  have "sum_list (map fcost (take k (forwarders s) @ drop (Suc k) (forwarders s))) + 3 =
        sum_list (map fcost (forwarders s))" by simp
  ultimately show ?thesis using FwdSend(1,6) by (simp add: work_left_def)
next
  case (WorkerAdd i)
  from sum_list_map_update [OF WorkerAdd(2), of wcost WPublish] WorkerAdd(3)
  have "sum_list (map wcost ((workers s)[i := WPublish])) + 1 = sum_list (map wcost (workers s))"
    by simp
  with WorkerAdd(1,4) show ?thesis by (simp add: work_left_def)
next
  case (WorkerPublish i)
  from sum_list_map_update [OF WorkerPublish(2), of wcost WSelect] WorkerPublish(3)
  have "sum_list (map wcost ((workers s)[i := WSelect])) + 1 = sum_list (map wcost (workers s))"
    by simp
  with WorkerPublish(1,5) show ?thesis by (simp add: work_left_def)
next
  case (WorkerDo i t)
  from sum_list_map_update [OF WorkerDo(2), of wcost WPublish] WorkerDo(3)
  have "sum_list (map wcost ((workers s)[i := WPublish])) + 1 = sum_list (map wcost (workers s))"
    by simp
  with WorkerDo(1,4) show ?thesis by (simp add: work_left_def)
next
  case (WorkerAck i)
  from sum_list_map_update [OF WorkerAck(2), of wcost WExited] WorkerAck(3)
  have "sum_list (map wcost ((workers s)[i := WExited])) + 1 = sum_list (map wcost (workers s))"
    by simp
  with WorkerAck(1,4) show ?thesis by (simp add: work_left_def)
next
  case (WorkerStop i)
  with ns show ?thesis by (simp add: no_stop_def)
next
  case (RouterWait i)
  with ns show ?thesis by (simp add: no_stop_def)
qed

lemma work_left_run:
  "no_stop s \<Longrightarrow> ACallStop \<notin> set as \<Longrightarrow> run Do as s = Some s' \<Longrightarrow>
   no_stop s' \<and>
   work_left s' + length (filter internal as) = work_left s + 5 * length (dispatched as)"
proof (induction as arbitrary: s)
  case Nil
  then show ?case by (simp add: dispatched_def)
next
  case (Cons a as)
  from Cons.prems obtain s1 where s1: "step Do a s = Some s1" and r: "run Do as s1 = Some s'"
    by (auto split: option.splits)
  from Cons.prems have a: "a \<noteq> ACallStop" and as: "ACallStop \<notin> set as" by auto
  from no_stop_step [OF Cons.prems(1) a s1] have ns1: "no_stop s1" .
  from Cons.IH [OF ns1 as r] work_left_step [OF Cons.prems(1) a s1]
  show ?case by (cases "internal a") (simp_all add: dispatched_Cons)
qed

lemma held_set: "set (held fs) = {w. \<exists>t. FSend w t \<in> set fs}"
  by (induction fs rule: held.induct) auto

lemma published_all_update:
  assumes pa: "published_all s"
    and p: "set (published s) \<subseteq> set (published s')"
    and w: "workers s' = (workers s)[i := w']"
    and ok: "w' \<noteq> WSelect"
  shows "published_all s'"
  unfolding published_all_def
proof (intro allI impI)
  fix j assume j: "j < length (workers s')" and sel: "workers s' ! j = WSelect"
  from j have j': "j < length (workers s)" by (simp add: w)
  from sel ok j' have "j \<noteq> i" by (auto simp: w)
  with sel j' have "workers s ! j = WSelect" by (simp add: w)
  with pa j' have "j \<in> set (published s)" by (simp add: published_all_def)
  with p show "j \<in> set (published s')" by blast
qed

lemma published_all_same:
  "published_all s \<Longrightarrow> set (published s') = set (published s) \<Longrightarrow> workers s' = workers s \<Longrightarrow>
   published_all s'"
  by (simp add: published_all_def)

lemma published_all_step:
  assumes pa: "published_all s" and inv: "pool_inv s" and st: "step Do a s = Some s'"
  shows "published_all s'"
  using st
proof (cases rule: step_cases)
  case (Dispatch p)
  then show ?thesis by (intro published_all_same [OF pa]) (simp_all add: published_def)
next
  case CallStop
  then show ?thesis by (intro published_all_same [OF pa]) (simp_all add: published_def)
next
  case (RouterTask t ts)
  then show ?thesis
    by (intro published_all_same [OF pa]) (simp_all add: published_def held_append)
next
  case RouterStop
  then show ?thesis by (intro published_all_same [OF pa]) (simp_all add: published_def)
next
  case (FwdTake k t w ws)
  have old: "published s = w # ws @ held (take k (forwarders s)) @ held (drop (Suc k) (forwarders s))"
    using held_nth_FTake [OF FwdTake(2,3)] FwdTake(4) by (simp add: published_def)
  have new: "published s' = ws @ held (take k (forwarders s)) @ w # held (drop (Suc k) (forwarders s))"
    using held_update_FSend [OF FwdTake(2)] by (simp add: published_def FwdTake(5))
  have "set (published s') = set (published s)" unfolding old new by auto
  then show ?thesis by (intro published_all_same [OF pa]) (simp_all add: FwdTake(5))
next
  case (FwdSend k w t)
  have old: "published s = buf (workerPool s) @ held (take k (forwarders s)) @ w # held (drop (Suc k) (forwarders s))"
    using held_nth_FSend [OF FwdSend(2,3)] by (simp add: published_def)
  have new: "published s' = buf (workerPool s) @ held (take k (forwarders s)) @ held (drop (Suc k) (forwarders s))"
    by (simp add: published_def FwdSend(6) held_append)
  show ?thesis
    unfolding published_all_def
  proof (intro allI impI)
    fix j assume j: "j < length (workers s')" and sel: "workers s' ! j = WSelect"
    from j have j': "j < length (workers s)" by (simp add: FwdSend(6))
    from sel j' have ne: "j \<noteq> w" by (auto simp: FwdSend(6))
    with sel j' have "workers s ! j = WSelect" by (simp add: FwdSend(6))
    with pa j' have "j \<in> set (published s)" by (simp add: published_all_def)
    with ne show "j \<in> set (published s')" unfolding old new by auto
  qed
next
  case (WorkerAdd i)
  then show ?thesis
    by (intro published_all_update [OF pa, of _ i WPublish]) (simp_all add: published_def)
next
  case (WorkerPublish i)
  show ?thesis
    unfolding published_all_def
  proof (intro allI impI)
    fix j assume j: "j < length (workers s')" and sel: "workers s' ! j = WSelect"
    from j have j': "j < length (workers s)" by (simp add: WorkerPublish(5))
    show "j \<in> set (published s')"
    proof (cases "j = i")
      case True
      then show ?thesis by (simp add: published_def WorkerPublish(5))
    next
      case False
      with sel j' have "workers s ! j = WSelect" by (simp add: WorkerPublish(5))
      with pa j' have "j \<in> set (published s)" by (simp add: published_all_def)
      then show ?thesis by (auto simp: published_def WorkerPublish(5))
    qed
  qed
next
  case (WorkerDo i t)
  then show ?thesis
    by (intro published_all_update [OF pa, of _ i WPublish]) (simp_all add: published_def)
next
  case (WorkerAck i)
  then show ?thesis
    by (intro published_all_update [OF pa, of _ i WExited]) (simp_all add: published_def)
next
  case (WorkerStop i)
  then show ?thesis
    by (intro published_all_update [OF pa, of _ i WAck]) (simp_all add: published_def)
next
  case (RouterWait i)
  then show ?thesis by (intro published_all_same [OF pa]) (simp_all add: published_def)
qed

lemma published_all_run:
  "published_all s \<Longrightarrow> pool_inv s \<Longrightarrow> run Do as s = Some s' \<Longrightarrow> published_all s'"
proof (induction as arbitrary: s)
  case Nil
  then show ?case by simp
next
  case (Cons a as)
  from Cons.prems obtain s1 where s1: "step Do a s = Some s1" and r: "run Do as s1 = Some s'"
    by (auto split: option.splits)
  from published_all_step [OF Cons.prems(1,2) s1] pool_inv_step [OF Cons.prems(2) s1] r
  show ?case by (rule Cons.IH)
qed

lemma published_all_Start: "published_all (Start n wl)"
  by (simp add: published_all_def Start_def)

lemma tasks_cap_step:
  assumes st: "step Do a s = Some s'"
  shows "cap (tasks s') = cap (tasks s)"
  using st by (cases rule: step_cases) simp_all

lemma tasks_cap_run: "run Do as s = Some s' \<Longrightarrow> cap (tasks s') = cap (tasks s)"
proof (induction as arbitrary: s)
  case Nil
  then show ?case by simp
next
  case (Cons a as)
  then show ?case by (auto split: option.splits dest: tasks_cap_step)
qed

lemma quiescentD: "quiescent Do s \<Longrightarrow> a \<in> set (internal_actions s) \<Longrightarrow> step Do a s = None"
  by (simp add: quiescent_def list_all_iff)

lemma quiescent_workers:
  assumes q: "quiescent Do s" and ns: "no_stop s" and si: "stop_inv s" and pi: "pool_inv s"
    and room: "length (workers s) \<le> cap (workerPool s)"
    and i: "i < length (workers s)"
  shows "workers s ! i = WSelect"
proof -
  from i have "AWorker i \<in> set (internal_actions s)" by (simp add: internal_actions_def)
  from quiescentD [OF q this] have blocked: "worker_step Do i s = None" by simp
  from si i have "stop_progress (router s) i (workers s ! i)" by (simp add: stop_inv_def)
  with ns have run: "\<not> stopping (workers s ! i)" by (simp add: no_stop_def)
  show ?thesis
  proof (cases "workers s ! i")
    case WAdd
    with blocked i show ?thesis by (simp add: worker_step_def)
  next
    case WPublish
    from publish_room [OF pi i WPublish] room
    have "length (buf (workerPool s)) < cap (workerPool s)" by simp
    with blocked i WPublish show ?thesis by (simp add: worker_step_def)
  next
    case WSelect
    then show ?thesis .
  next
    case (WDo t)
    with blocked i show ?thesis by (simp add: worker_step_def)
  next
    case WAck
    with run show ?thesis by (simp add: stopping_def)
  next
    case WExited
    with run show ?thesis by (simp add: stopping_def)
  qed
qed

lemma quiescent_tasks:
  assumes q: "quiescent Do s" and ns: "no_stop s"
  shows "buf (tasks s) = []"
proof (cases "buf (tasks s)")
  case Nil
  then show ?thesis .
next
  case (Cons t ts)
  have "ARouterTask \<in> set (internal_actions s)" by (simp add: internal_actions_def)
  from quiescentD [OF q this] ns Cons show ?thesis by (simp add: no_stop_def)
qed

lemma quiescent_forwarders:
  assumes q: "quiescent Do s" and pi: "pool_inv s" and pa: "published_all s"
    and ws: "\<forall>i < length (workers s). workers s ! i = WSelect"
    and len: "0 < length (workers s)"
  shows "forwarders s = []"
proof (rule ccontr)
  assume ne: "forwarders s \<noteq> []"
  have noSend: "forwarders s ! k \<noteq> FSend w t" if k: "k < length (forwarders s)" for k w t
  proof
    assume f: "forwarders s ! k = FSend w t"
    with k have "FSend w t \<in> set (forwarders s)" by (metis nth_mem)
    then have "w \<in> set (published s)" by (auto simp: published_def held_set)
    with pi have w: "w < length (workers s)" by (simp add: pool_inv_def)
    with ws have "workers s ! w = WSelect" by simp
    moreover from k have "AFwdSend k \<in> set (internal_actions s)"
      by (simp add: internal_actions_def)
    from quiescentD [OF q this] have "step Do (AFwdSend k) s = None" .
    ultimately show False using k f w by simp
  qed
  have "held (forwarders s) = []"
  proof -
    have "set (held (forwarders s)) = {}"
      using noSend by (auto simp: held_set in_set_conv_nth)
    then show ?thesis by simp
  qed
  moreover have "buf (workerPool s) = []"
  proof (cases "buf (workerPool s)")
    case Nil
    then show ?thesis .
  next
    case (Cons w ws')
    from ne have k: "0 < length (forwarders s)" by simp
    then obtain t where f: "forwarders s ! 0 = FTake t"
      using noSend [OF k] by (cases "forwarders s ! 0") auto
    from k have "AFwdTake 0 \<in> set (internal_actions s)" by (simp add: internal_actions_def)
    from quiescentD [OF q this] k f Cons show ?thesis by simp
  qed
  ultimately have "published s = []" by (simp add: published_def)
  moreover from ws len pa have "0 \<in> set (published s)" by (simp add: published_all_def)
  ultimately show False by simp
qed

lemma idle_quiescent:
  assumes ns: "no_stop s" and t: "buf (tasks s) = []" and f: "forwarders s = []"
    and ws: "\<forall>i < length (workers s). workers s ! i = WSelect"
  shows "quiescent Do s"
  using assms
  by (auto simp: quiescent_def list_all_iff internal_actions_def no_stop_def worker_step_def)

lemma work_left_0:
  "work_left s = 0 \<longleftrightarrow>
   buf (tasks s) = [] \<and> forwarders s = [] \<and>
   (\<forall>i < length (workers s). workers s ! i = WSelect \<or> workers s ! i = WExited)"
proof -
  have f: "sum_list (map fcost fs) = 0 \<longleftrightarrow> fs = []" for fs :: "'a fstate list"
  proof (cases fs)
    case Nil
    then show ?thesis by simp
  next
    case (Cons x xs)
    then show ?thesis by (cases x) simp_all
  qed
  have w: "wcost x = 0 \<longleftrightarrow> x = WSelect \<or> x = WExited" for x :: "'a wstate"
    by (cases x) simp_all
  have "sum_list (map wcost ws) = 0 \<longleftrightarrow> (\<forall>i < length ws. ws ! i = WSelect \<or> ws ! i = WExited)"
    for ws :: "'a wstate list"
    by (simp add: w all_set_conv_all_nth)
  with f show ?thesis by (auto simp: work_left_def)
qed

lemma all_nth_replicate: "(\<forall>i < length xs. xs ! i = x) \<Longrightarrow> xs = replicate (length xs) x"
  by (simp add: list_eq_iff_nth_eq)


lemma goroutines_no_stop:
  assumes ns: "no_stop s" and si: "stop_inv s"
  shows "goroutines s = length (workers s) + 1 + length (forwarders s)"
proof -
  have "\<forall>w \<in> set (workers s). w \<noteq> WExited"
  proof
    fix w assume "w \<in> set (workers s)"
    then obtain j where j: "j < length (workers s)" and w: "w = workers s ! j"
      by (auto simp: in_set_conv_nth)
    from si j have "stop_progress (router s) j (workers s ! j)" by (simp add: stop_inv_def)
    with ns w show "w \<noteq> WExited" by (auto simp: no_stop_def stopping_def)
  qed
  then have "filter (\<lambda>w. w \<noteq> WExited) (workers s) = workers s" by (simp add: filter_id_conv)
  with ns show ?thesis by (simp add: goroutines_def no_stop_def)
qed

lemma process_testWorkload:
  "process testWorkload_Do wl ps =
     wl\<lparr>doCalled := doCalled wl + of_nat (length ps),
        seenTasks := seenTasks wl @ map (\<lambda>p. fst p @ snd p) ps\<rparr>"
proof (induction ps rule: rev_induct)
  case Nil
  then show ?case by (simp add: process_def)
next
  case (snoc p ps)
  then show ?case by (simp add: process_snoc testWorkload_Do_def)
qed

text \<open>
  What holds in every state reached from \<^verbatim>\<open>Start(n, wl)\<close>, \<open>1 \<le> n \<le> 200\<close>, by a schedule
  without \<^verbatim>\<open>Stop\<close>.
\<close>

lemma drain_facts:
  fixes Do :: "'p \<Rightarrow> 'ws \<Rightarrow> error option \<times> 'ws" and s :: "('p, 'ws) dispatcher"
  assumes n: "1 \<le> n" "n \<le> 200"
    and as: "ACallStop \<notin> set as"
    and r: "run Do as (Start n wl) = Some s"
  shows "length (filter internal as) + work_left s = 2 * nat n + 5 * length (dispatched as)"
    and "length (buf (tasks s)) \<le> length (dispatched as)"
    and "cap (tasks s) = 2000"
    and "goroutines s = nat n + 1 + length (forwarders s)"
    and "quiescent Do s \<longleftrightarrow> work_left s = 0"
    and "quiescent Do s \<Longrightarrow> buf (tasks s) = [] \<and> forwarders s = [] \<and>
           workers s = replicate (nat n) WSelect"
    and "quiescent Do s \<Longrightarrow> \<exists>ps. mset ps = mset (dispatched as) \<and> wl_state s = process Do wl ps"
proof -
  have ns0: "no_stop (Start n wl :: ('p, 'ws) dispatcher)" by (simp add: no_stop_def Start_def)
  have w0: "work_left (Start n wl :: ('p, 'ws) dispatcher) = 2 * nat n"
    by (simp add: work_left_def Start_def make_chan_def sum_list_replicate)
  from work_left_run [OF ns0 as r] w0
  have ns: "no_stop s"
    and wl: "work_left s + length (filter internal as) = 2 * nat n + 5 * length (dispatched as)"
    by simp_all
  from wl show "length (filter internal as) + work_left s = 2 * nat n + 5 * length (dispatched as)"
    by simp
  have si: "stop_inv s" using stop_inv_run [OF stop_inv_Start r] .
  from run_invs [OF pool_inv_Start r]
  have pi: "pool_inv s" and cp: "cap (workerPool s) = 200" and len: "length (workers s) = nat n"
    by (simp_all add: Start_def make_chan_def)
  have pa: "published_all s"
    using published_all_run [OF published_all_Start pool_inv_Start r] .
  from accounted_run [OF accounted_Start r] obtain ps where
    ps: "wl_state s = process Do wl ps"
      "mset (dispatched as) =
         mset (buf (tasks s)) + mset (map ftask (forwarders s)) +
         mset (in_hand (workers s)) + mset ps"
    by (auto simp: accounted_def)
  from ps(2) have "size (mset (dispatched as)) =
      size (mset (buf (tasks s)) + mset (map ftask (forwarders s)) +
            mset (in_hand (workers s)) + mset ps)" by simp
  then show "length (buf (tasks s)) \<le> length (dispatched as)" by simp
  from tasks_cap_run [OF r] show "cap (tasks s) = 2000" by (simp add: Start_def make_chan_def)
  from goroutines_no_stop [OF ns si] len
  show "goroutines s = nat n + 1 + length (forwarders s)" by simp
  have room: "length (workers s) \<le> cap (workerPool s)" using len cp n by simp
  have pos: "0 < length (workers s)" using len n by simp
  have idle: "buf (tasks s) = [] \<and> forwarders s = [] \<and> workers s = replicate (nat n) WSelect"
    if q: "quiescent Do s"
  proof -
    have ws: "\<forall>i < length (workers s). workers s ! i = WSelect"
      using quiescent_workers [OF q ns si pi room] by simp
    from all_nth_replicate [OF ws] len have "workers s = replicate (nat n) WSelect" by simp
    with quiescent_tasks [OF q ns] quiescent_forwarders [OF q pi pa ws pos]
    show ?thesis by simp
  qed
  then show "quiescent Do s \<Longrightarrow> buf (tasks s) = [] \<and> forwarders s = [] \<and>
           workers s = replicate (nat n) WSelect" .
  show "quiescent Do s \<longleftrightarrow> work_left s = 0"
  proof
    assume "quiescent Do s"
    from idle [OF this] show "work_left s = 0" by (simp add: work_left_def)
  next
    assume z: "work_left s = 0"
    have "\<forall>i < length (workers s). workers s ! i = WSelect"
    proof (intro allI impI)
      fix i assume i: "i < length (workers s)"
      with z have "workers s ! i = WSelect \<or> workers s ! i = WExited" by (simp add: work_left_0)
      moreover from si i have "stop_progress (router s) i (workers s ! i)"
        by (simp add: stop_inv_def)
      with ns have "\<not> stopping (workers s ! i)" by (simp add: no_stop_def)
      ultimately show "workers s ! i = WSelect" by (auto simp: stopping_def)
    qed
    with z ns show "quiescent Do s" by (intro idle_quiescent) (simp_all add: work_left_0)
  qed
  show "\<exists>ps. mset ps = mset (dispatched as) \<and> wl_state s = process Do wl ps"
    if q: "quiescent Do s"
  proof -
    from idle [OF q] have "in_hand (workers s) = []" "buf (tasks s) = []" "forwarders s = []"
      by (simp_all add: in_hand_def)
    with ps show ?thesis by (intro exI [of _ ps]) simp
  qed
qed

text \<open>
  Claim C4, without the clock.  \<^verbatim>\<open>Start(n, wl)\<close> with \<open>1 \<le> n \<le> 200\<close> (the test has 20), any
  number of \<^verbatim>\<open>Dispatch\<close> calls (the test has 500) and no \<^verbatim>\<open>Stop\<close>, under every schedule of
  the goroutines:
  \<^item> the internal actions executed and those still to come add up to two per worker and
    five per dispatched task, so the goroutines of the dispatcher cannot run for more
    than that many actions;
  \<^item> \<^verbatim>\<open>Dispatch\<close> does not block as long as fewer than 2000 tasks have been dispatched;
  \<^item> the goroutines alive are those that \<^verbatim>\<open>Start\<close> has created and one per task on its way
    to a worker;
  \<^item> as long as work is left, some goroutine can proceed: the dispatcher is quiescent
    exactly when no work is left;
  \<^item> once it is quiescent, the intake buffer is empty, no hand-over goroutine is left, so
    that the goroutine count is back to its value before the first \<^verbatim>\<open>Dispatch\<close>, every worker
    waits in its \<^verbatim>\<open>select\<close>, and \<^verbatim>\<open>workload.Do\<close> has been run once on each dispatched task,
    in some order;
  \<^item> with the workload of the test, \<open>doCalled\<close> is then the number of dispatched tasks
    and \<open>seenTasks\<close> holds the string of each dispatched task once: as many strings as tasks,
    and different strings if the tasks are different.
  The model has no clock: that the goroutines get through these actions within the
  second that the test sleeps is outside it.
\<close>

theorem Dispatch_drains_without_leak:
  fixes Do :: "'p \<Rightarrow> 'ws \<Rightarrow> error option \<times> 'ws" and s :: "('p, 'ws) dispatcher"
  assumes n: "1 \<le> n" "n \<le> 200"
    and as: "ACallStop \<notin> set as"
    and r: "run Do as (Start n wl) = Some s"
  shows
    "length (filter internal as) + work_left s = 2 * nat n + 5 * length (dispatched as) \<and>
     (length (dispatched as) < 2000 \<longrightarrow> step Do (ADispatch p) s \<noteq> None) \<and>
     goroutines s = goroutines (Start n wl :: ('p, 'ws) dispatcher) + length (forwarders s) \<and>
     (quiescent Do s \<longleftrightarrow> work_left s = 0) \<and>
     (quiescent Do s \<longrightarrow>
        buf (tasks s) = [] \<and> forwarders s = [] \<and> workers s = replicate (nat n) WSelect \<and>
        goroutines s = goroutines (Start n wl :: ('p, 'ws) dispatcher) \<and>
        (\<exists>ps. mset ps = mset (dispatched as) \<and> wl_state s = process Do wl ps)) \<and>
     (\<forall>as' s'. ACallStop \<notin> set as' \<and>
        run testWorkload_Do as' (Start n new_testWorkload) = Some s' \<and>
        quiescent testWorkload_Do s' \<longrightarrow>
          doCalled (wl_state s') = of_nat (length (dispatched as')) \<and>
          length (seenTasks (wl_state s')) = length (dispatched as') \<and>
          mset (seenTasks (wl_state s')) = mset (map (\<lambda>p. fst p @ snd p) (dispatched as')) \<and>
          (distinct (map (\<lambda>p. fst p @ snd p) (dispatched as')) \<longrightarrow>
             distinct (seenTasks (wl_state s'))))"
proof -
  note f = drain_facts [OF n as r]
  have g0: "goroutines (Start n wl :: ('p, 'ws) dispatcher) = nat n + 1"
    by (simp add: goroutines_def Start_def)
  have c1: "length (filter internal as) + work_left s = 2 * nat n + 5 * length (dispatched as)"
    by (rule f(1))
  have c2: "length (dispatched as) < 2000 \<longrightarrow> step Do (ADispatch p) s \<noteq> None"
    using f(2,3) by simp
  have c3: "goroutines s = goroutines (Start n wl :: ('p, 'ws) dispatcher) + length (forwarders s)"
    using f(4) g0 by simp
  have c4: "quiescent Do s \<longleftrightarrow> work_left s = 0" by (rule f(5))
  have c5: "quiescent Do s \<longrightarrow>
        buf (tasks s) = [] \<and> forwarders s = [] \<and> workers s = replicate (nat n) WSelect \<and>
        goroutines s = goroutines (Start n wl :: ('p, 'ws) dispatcher) \<and>
        (\<exists>ps. mset ps = mset (dispatched as) \<and> wl_state s = process Do wl ps)"
  proof
    assume q: "quiescent Do s"
    from f(6) [OF q] c3 f(7) [OF q]
    show "buf (tasks s) = [] \<and> forwarders s = [] \<and> workers s = replicate (nat n) WSelect \<and>
        goroutines s = goroutines (Start n wl :: ('p, 'ws) dispatcher) \<and>
        (\<exists>ps. mset ps = mset (dispatched as) \<and> wl_state s = process Do wl ps)"
      by simp
  qed
  have c6: "\<forall>as' s'. ACallStop \<notin> set as' \<and>
        run testWorkload_Do as' (Start n new_testWorkload) = Some s' \<and>
        quiescent testWorkload_Do s' \<longrightarrow>
          doCalled (wl_state s') = of_nat (length (dispatched as')) \<and>
          length (seenTasks (wl_state s')) = length (dispatched as') \<and>
          mset (seenTasks (wl_state s')) = mset (map (\<lambda>p. fst p @ snd p) (dispatched as')) \<and>
          (distinct (map (\<lambda>p. fst p @ snd p) (dispatched as')) \<longrightarrow>
             distinct (seenTasks (wl_state s')))"
  proof (intro allI impI)
    fix as' and s' :: "(string \<times> string, testWorkload) dispatcher"
    assume a: "ACallStop \<notin> set as' \<and>
        run testWorkload_Do as' (Start n new_testWorkload) = Some s' \<and>
        quiescent testWorkload_Do s'"
    then have as': "ACallStop \<notin> set as'"
      and r': "run testWorkload_Do as' (Start n new_testWorkload) = Some s'"
      and q': "quiescent testWorkload_Do s'" by simp_all
    from drain_facts(7) [OF n as' r' q'] obtain ps where
      m: "mset ps = mset (dispatched as')"
      and w: "wl_state s' = process testWorkload_Do new_testWorkload ps" by blast
    from m have l: "length ps = length (dispatched as')" by (rule mset_eq_length)
    from m have mm: "mset (map (\<lambda>p. fst p @ snd p) ps) =
                     mset (map (\<lambda>p. fst p @ snd p) (dispatched as'))" by simp
    have dc: "doCalled (wl_state s') = of_nat (length (dispatched as'))"
      using l by (simp add: w process_testWorkload new_testWorkload_def)
    have st: "seenTasks (wl_state s') = map (\<lambda>p. fst p @ snd p) ps"
      by (simp add: w process_testWorkload new_testWorkload_def)
    have ms: "mset (seenTasks (wl_state s')) = mset (map (\<lambda>p. fst p @ snd p) (dispatched as'))"
      using mm by (simp add: st)
    have ln: "length (seenTasks (wl_state s')) = length (dispatched as')"
      using l by (simp add: st)
    have di: "distinct (map (\<lambda>p. fst p @ snd p) (dispatched as')) \<longrightarrow>
              distinct (seenTasks (wl_state s'))"
      using mset_eq_imp_distinct_iff [OF ms] by simp
    from dc ln ms di
    show "doCalled (wl_state s') = of_nat (length (dispatched as')) \<and>
          length (seenTasks (wl_state s')) = length (dispatched as') \<and>
          mset (seenTasks (wl_state s')) = mset (map (\<lambda>p. fst p @ snd p) (dispatched as')) \<and>
          (distinct (map (\<lambda>p. fst p @ snd p) (dispatched as')) \<longrightarrow>
             distinct (seenTasks (wl_state s')))"
      by (intro conjI)
  qed
  show ?thesis
    by (intro conjI) (rule c1 c2 c3 c4 c5 c6)+
qed

lemma run_drain_three:
  "run testWorkload_Do drain_three two_workers =
     Some \<lparr>workerPool = \<lparr>buf = [0, 1], cap = 200\<rparr>, tasks = \<lparr>buf = [], cap = 2000\<rparr>,
           workers = [WSelect, WSelect], wait = [1, 1], router = RSelect, forwarders = [],
           stop_caller = StopNotCalled,
           wl_state = \<lparr>doCalled = 3, seenTasks = [''u1h1'', ''u3h3'', ''u2h2'']\<rparr>\<rparr>"
  by (simp add: drain_three_def two_workers_def Start_def make_chan_def
      worker_step_def testWorkload_Do_def new_testWorkload_def numeral_2_eq_2)

lemma quiescent_drain_three:
  "quiescent testWorkload_Do
     \<lparr>workerPool = \<lparr>buf = [0, 1], cap = 200\<rparr>, tasks = \<lparr>buf = [], cap = 2000\<rparr>,
      workers = [WSelect, WSelect], wait = [1, 1], router = RSelect, forwarders = [],
      stop_caller = StopNotCalled,
      wl_state = \<lparr>doCalled = 3, seenTasks = [''u1h1'', ''u3h3'', ''u2h2'']\<rparr>\<rparr>"
  by (simp add: quiescent_def internal_actions_def worker_step_def upt_rec)

text \<open>
  Two workers and three tasks: after the 19 internal actions of the schedule (two per
  worker, five per task) the dispatcher is quiescent, \<^verbatim>\<open>Do\<close> has run three times, on the
  first, the third and the second task, and three goroutines are alive as before.
\<close>

theorem Dispatch_drains_without_leak_witness:
  "(1::int) \<le> 2 \<and> (2::int) \<le> 200 \<and> ACallStop \<notin> set drain_three \<and>
   run testWorkload_Do drain_three two_workers \<noteq> None \<and>
   quiescent testWorkload_Do (the (run testWorkload_Do drain_three two_workers)) \<and>
   dispatched drain_three = three_payloads \<and>
   length (filter internal drain_three) = 2 * 2 + 5 * 3 \<and>
   work_left (the (run testWorkload_Do drain_three two_workers)) = 0 \<and>
   goroutines (the (run testWorkload_Do drain_three two_workers)) = 3 \<and>
   goroutines two_workers = 3 \<and>
   doCalled (wl_state (the (run testWorkload_Do drain_three two_workers))) = 3 \<and>
   seenTasks (wl_state (the (run testWorkload_Do drain_three two_workers))) =
     [''u1h1'', ''u3h3'', ''u2h2'']"
proof -
  have a: "ACallStop \<notin> set drain_three" by (simp add: drain_three_def)
  have d: "dispatched drain_three = three_payloads"
    by (simp add: dispatched_def drain_three_def three_payloads_def)
  have i: "length (filter internal drain_three) = 19" by (simp add: drain_three_def)
  have g: "goroutines two_workers = 3"
    by (simp add: goroutines_def two_workers_def Start_def numeral_2_eq_2)
  have n: "(1::int) \<le> 2" "(2::int) \<le> 200" by simp_all
  note r = run_drain_three [unfolded two_workers_def]
  note q = quiescent_drain_three
  from Dispatch_drains_without_leak [OF n a r, THEN conjunct2, THEN conjunct2, THEN conjunct2,
      THEN conjunct1] q
  have w: "work_left (the (run testWorkload_Do drain_three two_workers)) = 0"
    by (simp add: run_drain_three)
  from Dispatch_drains_without_leak [OF n a r, THEN conjunct2, THEN conjunct2, THEN conjunct2,
      THEN conjunct2, THEN conjunct2, THEN spec, THEN spec, THEN mp, OF conjI [OF a conjI [OF r q]]]
  have c: "doCalled (wl_state (the (run testWorkload_Do drain_three two_workers))) = 3"
    by (simp add: run_drain_three d three_payloads_def)
  show ?thesis
    using a d i g w c quiescent_drain_three
    by (simp add: run_drain_three goroutines_def)
qed
section \<open>Popularity queue: hits, pops and the test workload\<close>

subsection \<open>The accumulator and the sample workloads\<close>

lemma hits_Pop: "hits (snd (Pop q)) = hits q"
  by (simp add: Pop_def split: option.splits)

lemma hits_apply_op: "hits (apply_op x q) = hits q + (if is_Hit x then 1 else 0)"
  by (cases x) (simp_all add: Hit_def hits_Pop Release_def Fold_def)

lemma hits_run_ops: "hits (run_ops ops q) = hits q + of_nat (length (filter is_Hit ops))"
  unfolding run_ops_def
  by (induction ops arbitrary: q) (simp_all add: hits_apply_op)

lemma hits_pops: "hits (snd (pops n q)) = hits q"
proof (induction n arbitrary: q)
  case 0
  then show ?case by simp
next
  case (Suc n)
  obtain r q' where p: "Pop q = (r, q')" by (cases "Pop q")
  obtain rs q'' where ps: "pops n q' = (rs, q'')" by (cases "pops n q'")
  have "hits q' = hits q" using hits_Pop [of q] p by simp
  moreover have "hits q'' = hits q'" using Suc.IH [of q'] ps by simp
  ultimately show ?case by (simp add: p ps)
qed

lemma hits_hit_all: "hits (hit_all kvs q) = hits q + of_nat (length kvs)"
  unfolding hit_all_def
  by (induction kvs arbitrary: q) (simp_all add: Hit_def split: prod.splits)

lemma count_list_replicate:
  "count_list (replicate n k) k' = (if k = k' then n else 0)"
  by (induction n) auto

lemma map_of_replicate:
  "map_of (replicate n (k, v)) k' = (if 0 < n \<and> k = k' then Some v else None)"
  by (induction n) auto

lemma count_list_distinct: "distinct xs \<Longrightarrow> count_list xs x = (if x \<in> set xs then 1 else 0)"
  by (induction xs) auto

lemma inj_noise_key: "inj noise_key"
  by (auto simp: inj_def noise_key_def dest: arg_cong [where f = length])

lemma distinct_noise: "distinct (map fst noise_hits)"
  by (simp add: noise_hits_def comp_def distinct_map inj_on_subset [OF inj_noise_key])

lemma noise_keys: "set (map fst noise_hits) = noise_key ` {..<100000}"
  by (auto simp: noise_hits_def)

lemma pinned_not_noise:
  "''u1'' \<notin> set (map fst noise_hits)" "''u2'' \<notin> set (map fst noise_hits)"
  "''u3'' \<notin> set (map fst noise_hits)"
  by (auto simp: noise_hits_def noise_key_def)

lemma length_noise: "length noise_hits = 100000"
  by (simp add: noise_hits_def)

lemma count_noise:
  "count_list (map fst noise_hits) k = (if k \<in> set (map fst noise_hits) then 1 else 0)"
  by (rule count_list_distinct [OF distinct_noise])

lemma E1_in_order_workload: "E1_workload ''u1'' ''u2'' ''u3'' 1 2 3 E1_in_order"
proof -
  have keys: "map fst E1_in_order =
      replicate 10000 ''u1'' @ replicate 10000 ''u2'' @ replicate 9000 ''u3'' @ map fst noise_hits"
    by (simp add: E1_in_order_def)
  have cnt: "count_list (map fst E1_in_order) k =
      (if k = ''u1'' then 10000 else if k = ''u2'' then 10000 else if k = ''u3'' then 9000
       else if k \<in> set (map fst noise_hits) then 1 else 0)" for k
    unfolding keys using pinned_not_noise
    by (auto simp: count_list_replicate count_noise)
  have "list_all (\<lambda>k. k \<in> {''u1'', ''u2'', ''u3''} \<or> count_list (map fst E1_in_order) k = 1)
      (map fst E1_in_order)"
    unfolding list_all_iff cnt by (auto simp: keys)
  moreover have "length E1_in_order = 129000"
    by (simp add: E1_in_order_def length_noise)
  moreover have "map_of E1_in_order ''u1'' = Some 1" "map_of E1_in_order ''u2'' = Some 2"
    "map_of E1_in_order ''u3'' = Some 3"
    by (simp_all add: E1_in_order_def map_of_replicate map_add_def)
  ultimately show ?thesis
    unfolding E1_workload_def by (simp add: cnt)
qed

subsection \<open>The highest-hit entry\<close>




subsection \<open>Closed form of a run of hits\<close>


lemma first_keys_distinct [simp]: "distinct (first_keys ks)"
  by (simp add: first_keys_def)


lemma first_keys_Nil [simp]: "first_keys [] = []"
  by (simp add: first_keys_def)

lemma key_item_of [simp]: "key (item_of kvs k) = k"
  by (simp add: item_of_def)

lemma released_item_of [simp]: "\<not> released (item_of kvs k)"
  by (simp add: item_of_def)












subsection \<open>Pop on a queue in closed form\<close>






subsection \<open>Successive pops\<close>






subsection \<open>The test workload\<close>





subsection \<open>Claims about the queue\<close>











text \<open>
  Claim C2.  After any sequence of operations on a new queue the accumulator is the number
  of \<^verbatim>\<open>Hit\<close>s among them, as a 64-bit word and, below \<open>2 ^ 64\<close> hits, as a number; \<^verbatim>\<open>Pop\<close>
  leaves it unchanged; and after the 129000 hits of the test workload and three \<^verbatim>\<open>Pop\<close>s it
  is 129000.
\<close>

theorem accumulator_counts_Hits:
  "hits (run_ops ops NewQueue) = of_nat (length (filter is_Hit ops)) \<and>
   (length (filter is_Hit ops) < 2 ^ 64 \<longrightarrow>
      unat (hits (run_ops ops NewQueue)) = length (filter is_Hit ops)) \<and>
   hits (snd (Pop q)) = hits q \<and>
   (E1_workload u1 u2 u3 c1 c2 c3 kvs \<longrightarrow> hits (snd (pops 3 (hit_all kvs NewQueue))) = 129000)"
proof (intro conjI impI)
  show h: "hits (run_ops ops NewQueue) = of_nat (length (filter is_Hit ops))"
    by (simp add: hits_run_ops NewQueue_def)
  show "unat (hits (run_ops ops NewQueue)) = length (filter is_Hit ops)"
    if "length (filter is_Hit ops) < 2 ^ 64"
    using that unfolding h by (simp add: unat_of_nat)
  show "hits (snd (Pop q)) = hits q" by (rule hits_Pop)
  show "hits (snd (pops 3 (hit_all kvs NewQueue))) = 129000"
    if "E1_workload u1 u2 u3 c1 c2 c3 kvs"
  proof -
    from that have "length kvs = 129000" by (simp add: E1_workload_def)
    then show ?thesis by (simp add: hits_pops hits_hit_all NewQueue_def)
  qed
qed


text \<open>C2 on a short mixed sequence with two hits, and on the test workload.\<close>

theorem accumulator_witness:
  "length (filter is_Hit [OpHit ''a'' (1::nat), OpPeek, OpPop, OpHit ''b'' 2, OpRelease ''b'', OpFold ''b'']) < 2 ^ 64 \<and>
   unat (hits (run_ops [OpHit ''a'' (1::nat), OpPeek, OpPop, OpHit ''b'' 2, OpRelease ''b'', OpFold ''b''] NewQueue)) = 2 \<and>
   E1_workload ''u1'' ''u2'' ''u3'' 1 2 3 E1_in_order \<and>
   hits (snd (pops 3 (hit_all E1_in_order NewQueue))) = 129000"
proof -
  let ?ops = "[OpHit ''a'' (1::nat), OpPeek, OpPop, OpHit ''b'' 2, OpRelease ''b'', OpFold ''b'']"
  note c = accumulator_counts_Hits [of ?ops NewQueue "''u1''" "''u2''" "''u3''" 1 2 3 E1_in_order]
  have n: "length (filter is_Hit ?ops) = 2" by simp
  have lt: "length (filter is_Hit ?ops) < 2 ^ 64" unfolding n by simp
  with c have "unat (hits (run_ops ?ops NewQueue)) = length (filter is_Hit ?ops)" by blast
  then have "unat (hits (run_ops ?ops NewQueue)) = 2" unfolding n .
  moreover from c E1_in_order_workload
  have "hits (snd (pops 3 (hit_all E1_in_order NewQueue))) = 129000" by blast
  ultimately show ?thesis using lt E1_in_order_workload by blast
qed


section \<open>Fragment cache client: the sd-hash check and the startup scan\<close>

text \<open>\<^verbatim>\<open>Test_sdHashRe\<close> of \<^verbatim>\<open>client_test.go\<close>, run on the model of the pattern.\<close>

lemma Test_sdHashRe:
  "sdHashRe_FindStringSubmatch
     ''http://t0.lbry.tv:18081/streams/85e8ad21f40550ebf0f30f7a0f6f092e8c62c7c697138e977087ac7b7f29554f8e0270447922493ff564457b60f45b18/master.m3u8''
   = Some ''85e8ad21f40550ebf0f30f7a0f6f092e8c62c7c697138e977087ac7b7f29554f8e0270447922493ff564457b60f45b18''"
  by (simp add: sdHashRe_here_def is_lower_hex_def)

lemma sdHashRe_here_hex:
  "sdHashRe_here s = Some h \<Longrightarrow> length h = 96 \<and> list_all is_lower_hex h"
  by (auto simp: sdHashRe_here_def split: if_splits)

lemma sdHashRe_hex:
  "sdHashRe_FindStringSubmatch s = Some h \<Longrightarrow> length h = 96 \<and> list_all is_lower_hex h"
proof (induction s)
  case Nil
  then show ?case by simp
next
  case (Cons c cs)
  show ?case
  proof (cases "sdHashRe_here (c # cs)")
    case None
    with Cons show ?thesis by simp
  next
    case (Some h')
    with Cons.prems have "h' = h" by simp
    with Some sdHashRe_here_hex show ?thesis by blast
  qed
qed

text \<open>
  Claim C8.  Whenever the supplied \<open>sdHash\<close> is not the hash the pattern finds in the
  remote URL of \<open>url\<close> (no hash found, or a different one), \<^verbatim>\<open>fragmentURL\<close> returns the
  empty URL and an error whose message contains \<^verbatim>\<open>remote sd hash mismatch\<close>.  When it is
  that hash, it consists of 96 lowercase hex characters and \<^verbatim>\<open>fragmentURL\<close> returns
  \<^verbatim>\<open><server>/streams/<sdHash>/<name>\<close> and no error.
\<close>

theorem fragmentURL_mismatch:
  "(sdHashRe_FindStringSubmatch (remote url) \<noteq> Some sdHash \<longrightarrow>
      fst (fragmentURL remote server url sdHash name) = '''' \<and>
      (\<exists>e. snd (fragmentURL remote server url sdHash name) = Some e \<and>
           sublist ''remote sd hash mismatch'' (error_message e))) \<and>
   (sdHashRe_FindStringSubmatch (remote url) = Some sdHash \<longrightarrow>
      length sdHash = 96 \<and> list_all is_lower_hex sdHash \<and>
      fragmentURL remote server url sdHash name =
        (server @ ''/streams/'' @ sdHash @ ''/'' @ name, None))"
proof (intro conjI impI)
  assume ne: "sdHashRe_FindStringSubmatch (remote url) \<noteq> Some sdHash"
  then have f: "fragmentURL remote server url sdHash name =
      ('''', Some (ErrOther ''remote sd hash mismatch''))"
    by (cases "sdHashRe_FindStringSubmatch (remote url)") (simp_all add: fragmentURL_def)
  show "fst (fragmentURL remote server url sdHash name) = ''''" by (simp add: f)
  show "\<exists>e. snd (fragmentURL remote server url sdHash name) = Some e \<and>
           sublist ''remote sd hash mismatch'' (error_message e)"
    unfolding f by (intro exI [of _ "ErrOther ''remote sd hash mismatch''"]) simp
next
  assume eq: "sdHashRe_FindStringSubmatch (remote url) = Some sdHash"
  from sdHashRe_hex [OF eq] show "length sdHash = 96" "list_all is_lower_hex sdHash" by simp_all
  from eq show "fragmentURL remote server url sdHash name =
        (server @ ''/streams/'' @ sdHash @ ''/'' @ name, None)"
    by (simp add: fragmentURL_def)
qed

lemma test_remote_vanquish:
  "sdHashRe_FindStringSubmatch (test_remote vanquish) = Some vanquish_sdHash"
  by (simp add: test_remote_def test_server_def vanquish_sdHash_def sdHashRe_here_def
      is_lower_hex_def)

lemma test_remote_morgan: "sdHashRe_FindStringSubmatch (test_remote ''morgan'') = None"
  by (simp add: test_remote_def vanquish_def)

text \<open>
  The calls of \<^verbatim>\<open>Test_fragmentURL\<close>: an unknown stream, a known stream with a wrong hash,
  and the known stream with its hash.
\<close>

theorem fragmentURL_mismatch_witness:
  "sdHashRe_FindStringSubmatch (test_remote ''morgan'') \<noteq> Some other_sdHash \<and>
   fragmentURL test_remote test_server ''morgan'' other_sdHash ''master.m3u8'' =
     ('''', Some (ErrOther ''remote sd hash mismatch'')) \<and>
   sdHashRe_FindStringSubmatch (test_remote vanquish) \<noteq> Some ''azazaz'' \<and>
   fragmentURL test_remote test_server vanquish ''azazaz'' ''master.m3u8'' =
     ('''', Some (ErrOther ''remote sd hash mismatch'')) \<and>
   sdHashRe_FindStringSubmatch (test_remote vanquish) = Some vanquish_sdHash \<and>
   fragmentURL test_remote test_server vanquish vanquish_sdHash ''master.m3u8'' =
     (''http://t0.lbry.tv:18081/streams/bec50ab288153ed03b0eb8dafd814daf19a187e07f8da4ad91cf778f5c39ac74d9d92ad6e3ebf2ddb6b7acea3cb8893a/master.m3u8'', None)"
proof -
  have a: "sdHashRe_FindStringSubmatch (test_remote vanquish) \<noteq> Some ''azazaz''"
    by (simp add: test_remote_vanquish vanquish_sdHash_def)
  have m: "sdHashRe_FindStringSubmatch (test_remote ''morgan'') \<noteq> Some other_sdHash"
    by (simp add: test_remote_morgan)
  from fragmentURL_mismatch [of test_remote vanquish vanquish_sdHash test_server "''master.m3u8''"]
    test_remote_vanquish
  have "fragmentURL test_remote test_server vanquish vanquish_sdHash ''master.m3u8'' =
     (test_server @ ''/streams/'' @ vanquish_sdHash @ ''/'' @ ''master.m3u8'', None)"
    by blast
  then have ok: "fragmentURL test_remote test_server vanquish vanquish_sdHash ''master.m3u8'' =
     (''http://t0.lbry.tv:18081/streams/bec50ab288153ed03b0eb8dafd814daf19a187e07f8da4ad91cf778f5c39ac74d9d92ad6e3ebf2ddb6b7acea3cb8893a/master.m3u8'', None)"
    by (simp add: test_server_def vanquish_sdHash_def)
  from fragmentURL_mismatch [of test_remote vanquish "''azazaz''" test_server "''master.m3u8''"] a
  have "fst (fragmentURL test_remote test_server vanquish ''azazaz'' ''master.m3u8'') = ''''"
    by blast
  moreover have "snd (fragmentURL test_remote test_server vanquish ''azazaz'' ''master.m3u8'') =
      Some (ErrOther ''remote sd hash mismatch'')"
    using a by (simp add: fragmentURL_def test_remote_vanquish split: option.splits)
  ultimately have f1: "fragmentURL test_remote test_server vanquish ''azazaz'' ''master.m3u8'' =
     ('''', Some (ErrOther ''remote sd hash mismatch''))"
    by (simp add: prod_eq_iff)
  have f2: "fragmentURL test_remote test_server ''morgan'' other_sdHash ''master.m3u8'' =
     ('''', Some (ErrOther ''remote sd hash mismatch''))"
    by (simp add: fragmentURL_def test_remote_morgan)
  show ?thesis using a m ok f1 f2 test_remote_vanquish by simp
qed

lemma restore_files_count:
  "fst (restore_files now h es idx) = length (filter is_regular es)"
proof (induction es arbitrary: idx)
  case Nil
  then show ?case by simp
next
  case (Cons e es)
  obtain n d where e: "e = (n, d)" by (cases e)
  show ?case
    unfolding e using Cons by (cases d) (simp_all add: case_prod_beta)
qed

lemma restore_dirs_count:
  "fst (restore_dirs now ds idx) = sum_list (map regular_files ds)"
proof (induction ds arbitrary: idx)
  case Nil
  then show ?case by simp
next
  case (Cons e ds)
  obtain n d where e: "e = (n, d)" by (cases e)
  show ?case
    unfolding e using Cons by (cases d) (simp_all add: case_prod_beta restore_files_count)
qed

lemma restore_files_index:
  "distinct (map fst es) \<Longrightarrow>
   snd (restore_files now h es idx) (h', n') =
     (if h' = h then
        (case map_of es n' of
           Some (RegularFile sz) \<Rightarrow> Some (entry_for now h n' sz)
         | _ \<Rightarrow> idx (h', n'))
      else idx (h', n'))"
proof (induction es arbitrary: idx)
  case Nil
  then show ?case by simp
next
  case (Cons e es)
  obtain n d where e: "e = (n, d)" by (cases e)
  from Cons.prems have dist: "distinct (map fst es)" and n: "n \<notin> fst ` set es"
    by (simp_all add: e)
  from n have none: "map_of es n = None" by (simp add: map_of_eq_None_iff)
  show ?case
  proof (cases d)
    case (RegularFile sz)
    let ?idx = "idx((h, n) \<mapsto> \<lparr>frag_sdHash = h, frag_name = n, frag_size = sz,
                               frag_lastAccessed = now\<rparr>)"
    have "snd (restore_files now h (e # es) idx) (h', n') =
        snd (restore_files now h es ?idx) (h', n')"
      by (simp add: e RegularFile case_prod_beta)
    also have "\<dots> = (if h' = h then
        (case map_of es n' of
           Some (RegularFile sz) \<Rightarrow> Some (entry_for now h n' sz)
         | _ \<Rightarrow> ?idx (h', n'))
      else ?idx (h', n'))"
      by (rule Cons.IH [OF dist])
    also have "\<dots> = (if h' = h then
        (case map_of (e # es) n' of
           Some (RegularFile sz) \<Rightarrow> Some (entry_for now h n' sz)
         | _ \<Rightarrow> idx (h', n'))
      else idx (h', n'))"
      using none
      by (cases "n' = n") (simp_all add: e RegularFile entry_for_def split: option.splits dirent.splits)
    finally show ?thesis .
  next
    case (Directory sub)
    have "snd (restore_files now h (e # es) idx) (h', n') =
        snd (restore_files now h es idx) (h', n')"
      by (simp add: e Directory)
    also have "\<dots> = (if h' = h then
        (case map_of es n' of
           Some (RegularFile sz) \<Rightarrow> Some (entry_for now h n' sz)
         | _ \<Rightarrow> idx (h', n'))
      else idx (h', n'))"
      by (rule Cons.IH [OF dist])
    also have "\<dots> = (if h' = h then
        (case map_of (e # es) n' of
           Some (RegularFile sz) \<Rightarrow> Some (entry_for now h n' sz)
         | _ \<Rightarrow> idx (h', n'))
      else idx (h', n'))"
      using none by (cases "n' = n") (simp_all add: e Directory)
    finally show ?thesis .
  qed
qed

lemma restore_dirs_index:
  "well_formed ds \<Longrightarrow>
   snd (restore_dirs now ds idx) (h', n') =
     (case stat_size ds h' n' of
        Some sz \<Rightarrow> Some (entry_for now h' n' sz)
      | None \<Rightarrow> idx (h', n'))"
proof (induction ds arbitrary: idx)
  case Nil
  then show ?case by (simp add: stat_size_def)
next
  case (Cons e ds)
  obtain h d where e: "e = (h, d)" by (cases e)
  from Cons.prems have wf: "well_formed ds" and h: "h \<notin> fst ` set ds"
    and dn: "distinct_names (h, d)"
    by (simp_all add: well_formed_def e)
  from h have none: "map_of ds h = None" by (simp add: map_of_eq_None_iff)
  show ?case
  proof (cases d)
    case (RegularFile sz)
    have "stat_size (e # ds) h' n' = stat_size ds h' n'"
      using none by (simp add: stat_size_def e RegularFile)
    with Cons.IH [OF wf, of idx] show ?thesis by (simp add: e RegularFile)
  next
    case (Directory es)
    from dn have des: "distinct (map fst es)" by (simp add: Directory)
    let ?idx1 = "snd (restore_files now h es idx)"
    have idx1: "?idx1 (h', n') =
       (if h' = h then
          (case map_of es n' of
             Some (RegularFile sz) \<Rightarrow> Some (entry_for now h n' sz)
           | _ \<Rightarrow> idx (h', n'))
        else idx (h', n'))"
      by (rule restore_files_index [OF des])
    have "snd (restore_dirs now (e # ds) idx) (h', n') =
        snd (restore_dirs now ds ?idx1) (h', n')"
      by (simp add: e Directory case_prod_beta)
    also have "\<dots> = (case stat_size ds h' n' of
          Some sz \<Rightarrow> Some (entry_for now h' n' sz)
        | None \<Rightarrow> ?idx1 (h', n'))"
      by (rule Cons.IH [OF wf])
    also have "\<dots> = (case stat_size (e # ds) h' n' of
          Some sz \<Rightarrow> Some (entry_for now h' n' sz)
        | None \<Rightarrow> idx (h', n'))"
    proof (cases "h' = h")
      case True
      with none have "stat_size ds h' n' = None" by (simp add: stat_size_def)
      with True idx1 show ?thesis
        by (simp add: stat_size_def e Directory split: option.splits dirent.splits)
    next
      case False
      then have 1: "stat_size (e # ds) h' n' = stat_size ds h' n'"
        by (simp add: stat_size_def e)
      from idx1 False have 2: "?idx1 (h', n') = idx (h', n')" by simp
      show ?thesis by (simp only: 1 2)
    qed
    finally show ?thesis .
  qed
qed

text \<open>
  Claim C9.  \<^verbatim>\<open>RestoreCache\<close> returns the number of regular files in the hash directories
  under the root, and no error: 3170 for ten directories of \<open>78 * 4 + 5\<close> regular files
  each.  After the scan of a well-formed tree the index holds exactly the files
  \<^verbatim>\<open><root>/<sdHash>/<name>\<close> that \<^verbatim>\<open>os.Stat\<close> finds as regular files, and for each of them
  \<^verbatim>\<open>getCachedFragment\<close> returns an entry, \<open>hit = true\<close> and no error, the entry's \<^verbatim>\<open>Size()\<close>
  being the size on disk.
\<close>

theorem RestoreCache_exhaustive:
  "fst (RestoreCache now root Map.empty) = (sum_list (map regular_files root), None) \<and>
   (length root = 10 \<and> list_all (\<lambda>d. regular_files d = 78 * 4 + 5) root \<longrightarrow>
      fst (fst (RestoreCache now root Map.empty)) = 3170) \<and>
   (well_formed root \<longrightarrow>
      (\<forall>h n. (snd (RestoreCache now root Map.empty) (h, n) = None \<longleftrightarrow> stat_size root h n = None) \<and>
         (\<forall>sz. stat_size root h n = Some sz \<longrightarrow>
            (\<exists>fg. getCachedFragment fetch (snd (RestoreCache now root Map.empty)) url h n
                    = (Some fg, True, None) \<and>
                  fragment_Size fg = sz \<and> frag_sdHash fg = h \<and> frag_name fg = n))))"
proof (intro conjI impI allI)
  show c: "fst (RestoreCache now root Map.empty) = (sum_list (map regular_files root), None)"
    using restore_dirs_count [of now root Map.empty]
    by (simp add: RestoreCache_def case_prod_beta)
  show "fst (fst (RestoreCache now root Map.empty)) = 3170"
    if "length root = 10 \<and> list_all (\<lambda>d. regular_files d = 78 * 4 + 5) root"
  proof -
    from that have "map regular_files root = replicate 10 317"
      by (auto simp: list_all_iff intro!: replicate_eqI)
    then show ?thesis by (simp add: c sum_list_replicate)
  qed
next
  fix h n
  assume wf: "well_formed root"
  have idx: "snd (RestoreCache now root Map.empty) (h, n) =
      (case stat_size root h n of Some sz \<Rightarrow> Some (entry_for now h n sz) | None \<Rightarrow> None)"
    using restore_dirs_index [OF wf, of now Map.empty h n]
    by (simp add: RestoreCache_def case_prod_beta)
  show "snd (RestoreCache now root Map.empty) (h, n) = None \<longleftrightarrow> stat_size root h n = None"
    by (simp add: idx split: option.splits)
  fix sz assume "stat_size root h n = Some sz"
  with idx have "snd (RestoreCache now root Map.empty) (h, n) = Some (entry_for now h n sz)"
    by simp
  then have "getCachedFragment fetch (snd (RestoreCache now root Map.empty)) url h n
      = (Some (entry_for now h n sz), True, None)"
    by (simp add: getCachedFragment_def)
  then show "\<exists>fg. getCachedFragment fetch (snd (RestoreCache now root Map.empty)) url h n
                    = (Some fg, True, None) \<and>
                  fragment_Size fg = sz \<and> frag_sdHash fg = h \<and> frag_name fg = n"
    by (simp add: entry_for_def fragment_Size_def)
qed

lemma fixture_regular: "regular_files (fixture_dir i) = 317"
proof -
  have "filter is_regular (map fixture_file xs) = map fixture_file xs" for xs
    by (induction xs) (simp_all add: fixture_file_def)
  then show ?thesis by (simp add: fixture_dir_def)
qed

lemma fixture_well_formed: "well_formed fixture_root"
proof -
  have "inj (\<lambda>i. fst (fixture_dir i))"
    by (auto simp: inj_def fixture_dir_def dest: arg_cong [where f = length])
  then have "inj_on (\<lambda>i. fst (fixture_dir i)) {0..<10}"
    by (rule inj_on_subset) simp
  then have 1: "distinct (map fst fixture_root)"
    by (simp add: fixture_root_def comp_def distinct_map)
  have "inj (\<lambda>j. fst (fixture_file j))"
    by (auto simp: inj_def fixture_file_def dest: arg_cong [where f = length])
  then have "inj_on (\<lambda>j. fst (fixture_file j)) {0..<317}"
    by (rule inj_on_subset) simp
  then have "distinct (map fst (map fixture_file [0..<317]))"
    by (simp add: comp_def distinct_map)
  then have 2: "list_all distinct_names fixture_root"
    by (simp add: fixture_root_def list_all_iff fixture_dir_def)
  from 1 2 show ?thesis by (simp add: well_formed_def)
qed

lemma fixture_stat: "stat_size fixture_root ''dyyy'' ''fxxxxx'' = Some 10005"
proof -
  have "inj (\<lambda>j. fst (fixture_file j))"
    by (auto simp: inj_def fixture_file_def dest: arg_cong [where f = length])
  then have "inj_on (\<lambda>j. fst (fixture_file j)) {0..<317}"
    by (rule inj_on_subset) simp
  then have d: "distinct (map fst (map fixture_file [0..<317]))"
    by (simp add: comp_def distinct_map)
  have x5: "replicate 5 (CHR ''x'') = ''xxxxx''" by (simp add: numeral_eq_Suc)
  have "fixture_file 5 = (''fxxxxx'', RegularFile 10005)"
    by (simp add: fixture_file_def x5)
  moreover have "fixture_file 5 \<in> fixture_file ` {0..<317}" by (rule imageI) simp
  ultimately have "(''fxxxxx'', RegularFile 10005) \<in> set (map fixture_file [0..<317])"
    by simp
  from map_of_is_SomeI [OF d this]
  have f: "map_of (map fixture_file [0..<317]) ''fxxxxx'' = Some (RegularFile 10005)" .
  have y3: "replicate 3 (CHR ''y'') = ''yyy''" by (simp add: numeral_eq_Suc)
  have "fixture_dir 3 = (''dyyy'', Directory (map fixture_file [0..<317]))"
    by (simp add: fixture_dir_def y3)
  moreover have "fixture_dir 3 \<in> fixture_dir ` {0..<10}" by (rule imageI) simp
  ultimately have "(''dyyy'', Directory (map fixture_file [0..<317])) \<in> set fixture_root"
    by (simp add: fixture_root_def)
  from map_of_is_SomeI [OF _ this] fixture_well_formed
  have "map_of fixture_root ''dyyy'' = Some (Directory (map fixture_file [0..<317]))"
    by (simp add: well_formed_def)
  with f show ?thesis by (simp add: stat_size_def)
qed

text \<open>
  C9 on the fixture of \<^verbatim>\<open>TestRestoreCache\<close>: the scan counts 3170 files, and the sixth
  file of the fourth directory is a hit with its size on disk.
\<close>

theorem RestoreCache_exhaustive_witness:
  "length fixture_root = 10 \<and>
   list_all (\<lambda>d. regular_files d = 78 * 4 + 5) fixture_root \<and>
   fst (fst (RestoreCache 0 fixture_root Map.empty)) = 3170 \<and>
   well_formed fixture_root \<and>
   stat_size fixture_root ''dyyy'' ''fxxxxx'' = Some 10005 \<and>
   snd (RestoreCache 0 fixture_root Map.empty) (''dyyy'', ''fxxxxx'') \<noteq> None \<and>
   fst (snd (getCachedFragment no_fetch (snd (RestoreCache 0 fixture_root Map.empty))
               ''zzz'' ''dyyy'' ''fxxxxx'')) = True \<and>
   map_option fragment_Size
     (fst (getCachedFragment no_fetch (snd (RestoreCache 0 fixture_root Map.empty))
             ''zzz'' ''dyyy'' ''fxxxxx'')) = Some 10005"
proof -
  note t = RestoreCache_exhaustive [of 0 fixture_root no_fetch "''zzz''"]
  have l: "length fixture_root = 10" by (simp add: fixture_root_def)
  have r: "list_all (\<lambda>d. regular_files d = 78 * 4 + 5) fixture_root"
    by (simp add: fixture_root_def list_all_iff fixture_regular)
  from t l r have c: "fst (fst (RestoreCache 0 fixture_root Map.empty)) = 3170" by blast
  from t fixture_well_formed fixture_stat
  have i: "snd (RestoreCache 0 fixture_root Map.empty) (''dyyy'', ''fxxxxx'') \<noteq> None"
    by (metis option.distinct(1))
  from t fixture_well_formed fixture_stat
  obtain fg where "getCachedFragment no_fetch (snd (RestoreCache 0 fixture_root Map.empty))
      ''zzz'' ''dyyy'' ''fxxxxx'' = (Some fg, True, None)" "fragment_Size fg = 10005"
    by blast
  with l r c i fixture_well_formed fixture_stat show ?thesis by simp
qed

end
